theory Spec2Isabelle
  imports Main "HOL-Library.Multiset"
begin

section \<open>The constraint-satisfaction engine of battle.py\<close>

text \<open>
  Shallow embedding of the engine shared by \<^verbatim>\<open>battle.py\<close> and \<^verbatim>\<open>battle_sol.py\<close>:
  the classes \<^verbatim>\<open>Variable\<close>, \<^verbatim>\<open>Constraint\<close>, \<^verbatim>\<open>CSP\<close>, \<^verbatim>\<open>TableConstraint\<close>,
  \<^verbatim>\<open>NValuesConstraint\<close>, the helper \<^verbatim>\<open>findvals\<close>, the propagation loop
  \<^verbatim>\<open>GacEnforce\<close> (\<^verbatim>\<open>AC3Enforce\<close>) and the search \<^verbatim>\<open>GAC\<close> (\<^verbatim>\<open>AC3\<close>).

  Python objects have identity: a \<^verbatim>\<open>Variable\<close> is a natural number (its address) into a
  heap of variable records, and a constraint carries its address in the field \<open>cid\<close>.
  Values of a domain are of an arbitrary type \<open>'a\<close>; Python's \<^verbatim>\<open>None\<close> as the value of
  an unassigned variable is \<open>None\<close> of \<open>'a option\<close>.
\<close>

subsection \<open>Data\<close>

type_synonym vid = nat

record 'a Variable =
  v_name :: string
  v_dom :: "'a list"
  v_curdom :: "'a list"
  v_value :: "'a option"

text \<open>Lines written by \<^verbatim>\<open>print\<close>, with the arguments of the format string.\<close>

datatype 'a message =
    AssignError 'a string
  | PruneError 'a string
  | ConstraintsOfError string string

datatype error = ValueError | IndexError | TypeError | AttributeError

text \<open>
  The mutable state: the heap of variables, the class attribute \<^verbatim>\<open>Variable.undoDict\<close>,
  the lines printed so far, and the calls of the solution sink, each with the
  assignment of the CSP's variables it was called on. The field \<open>selected\<close> is a
  history of the search: one entry per \<^verbatim>\<open>unAssignedVars.pop(0)\<close>, holding the variable
  popped and the list it was popped from.
\<close>

record 'a state =
  vars :: "vid \<Rightarrow> 'a Variable"
  undoDict :: "(vid \<times> 'a) \<Rightarrow> (vid \<times> 'a) list option"
  stdout :: "'a message list"
  sink_calls :: "(vid \<times> 'a option) list list"
  selected :: "(vid \<times> vid list) list"

datatype 'a Constraint =
    TableConstraint (cid: nat) (c_name: string) (scope: "vid list")
      (satAssignments: "'a list list")
  | NValuesConstraint (cid: nat) (c_name: string) (scope: "vid list")
      (required: "'a list") (lb: int) (ub: int)

record 'a CSP =
  csp_name :: string
  variables :: "vid list"
  constraints :: "'a Constraint list"
  constraints_of :: "'a Constraint list list"

subsection \<open>Python lists\<close>

text \<open>\<^verbatim>\<open>list.remove(x)\<close> deletes the first occurrence and raises ValueError without one.\<close>

definition list_remove :: "'a \<Rightarrow> 'a list \<Rightarrow> error + 'a list" where
  "list_remove x xs = (if x \<in> set xs then Inr (remove1 x xs) else Inl ValueError)"

text \<open>\<^verbatim>\<open>list.index(x)\<close> is the first position of \<open>x\<close> and raises ValueError without one.\<close>

fun list_index :: "'a list \<Rightarrow> 'a \<Rightarrow> error + nat" where
  "list_index [] x = Inl ValueError"
| "list_index (y # ys) x =
     (if y = x then Inr 0
      else (case list_index ys x of Inl e \<Rightarrow> Inl e | Inr i \<Rightarrow> Inr (Suc i)))"

text \<open>\<^verbatim>\<open>xs[i]\<close> for a non-negative index raises IndexError out of range.\<close>

definition list_get :: "'a list \<Rightarrow> nat \<Rightarrow> error + 'a" where
  "list_get xs i = (if i < length xs then Inr (xs ! i) else Inl IndexError)"

subsection \<open>class Variable\<close>

definition Variable_init :: "string \<Rightarrow> 'a list \<Rightarrow> 'a Variable" where
  "Variable_init nm domain =
     \<lparr>v_name = nm, v_dom = domain, v_curdom = domain, v_value = None\<rparr>"

definition getValue :: "'a Variable \<Rightarrow> 'a option" where
  "getValue var = v_value var"

definition isAssigned :: "'a Variable \<Rightarrow> bool" where
  "isAssigned var = (getValue var \<noteq> None)"

definition setValue :: "vid \<Rightarrow> 'a option \<Rightarrow> 'a state \<Rightarrow> 'a state" where
  "setValue v x s =
     (let var = vars s v in
      if x \<noteq> None \<and> the x \<notin> set (v_dom var)
      then s\<lparr>stdout := stdout s @ [AssignError (the x) (v_name var)]\<rparr>
      else s\<lparr>vars := (vars s)(v := var\<lparr>v_value := x\<rparr>)\<rparr>)"

definition unAssign :: "vid \<Rightarrow> 'a state \<Rightarrow> 'a state" where
  "unAssign v s = setValue v None s"

definition curDomain :: "'a Variable \<Rightarrow> 'a list" where
  "curDomain var = (if isAssigned var then [the (getValue var)] else v_curdom var)"

definition curDomainSize :: "'a Variable \<Rightarrow> nat" where
  "curDomainSize var = (if isAssigned var then 1 else length (v_curdom var))"

definition inCurDomain :: "'a Variable \<Rightarrow> 'a \<Rightarrow> bool" where
  "inCurDomain var x =
     (if isAssigned var then Some x = getValue var else x \<in> set (v_curdom var))"

text \<open>
  \<^verbatim>\<open>pruneValue\<close>: the ValueError of \<^verbatim>\<open>remove\<close> is caught by the bare \<^verbatim>\<open>except\<close>, which
  prints; the entry of the undo dictionary is written in both cases.
\<close>

definition pruneValue :: "vid \<Rightarrow> 'a \<Rightarrow> vid \<Rightarrow> 'a \<Rightarrow> 'a state \<Rightarrow> 'a state" where
  "pruneValue v x reasonVar reasonVal s =
     (let var = vars s v;
          s1 = (case list_remove x (v_curdom var) of
                  Inr xs \<Rightarrow> s\<lparr>vars := (vars s)(v := var\<lparr>v_curdom := xs\<rparr>)\<rparr>
                | Inl e \<Rightarrow> s\<lparr>stdout := stdout s @ [PruneError x (v_name var)]\<rparr>);
          dkey = (reasonVar, reasonVal);
          s2 = (if undoDict s1 dkey = None
                then s1\<lparr>undoDict := (undoDict s1)(dkey \<mapsto> [])\<rparr> else s1)
      in s2\<lparr>undoDict := (undoDict s2)(dkey \<mapsto> the (undoDict s2 dkey) @ [(v, x)])\<rparr>)"

definition restoreVal :: "vid \<Rightarrow> 'a \<Rightarrow> 'a state \<Rightarrow> 'a state" where
  "restoreVal v x s =
     s\<lparr>vars := (vars s)(v := (vars s v)\<lparr>v_curdom := v_curdom (vars s v) @ [x]\<rparr>)\<rparr>"

definition restoreValues :: "vid \<Rightarrow> 'a \<Rightarrow> 'a state \<Rightarrow> 'a state" where
  "restoreValues reasonVar reasonVal s =
     (let dkey = (reasonVar, reasonVal) in
      case undoDict s dkey of
        None \<Rightarrow> s
      | Some entries \<Rightarrow>
          (let s1 = fold (\<lambda>(var, val). restoreVal var val) entries s
           in s1\<lparr>undoDict := (undoDict s1)(dkey := None)\<rparr>))"

subsection \<open>class CSP\<close>

text \<open>
  The constructor builds \<^verbatim>\<open>constraints_of\<close>: for every constraint and every position of
  its scope, the constraint is appended to the row of the first position of the
  variable in \<^verbatim>\<open>variables\<close>; \<^verbatim>\<open>variables.index(v)\<close> raises ValueError for a scope
  variable that is not listed. The two sanity loops before only print.
\<close>

fun index_scope :: "vid list \<Rightarrow> 'a Constraint \<Rightarrow> vid list \<Rightarrow> 'a Constraint list list
    \<Rightarrow> error + 'a Constraint list list" where
  "index_scope vlist c [] rows = Inr rows"
| "index_scope vlist c (v # vs) rows =
     (case list_index vlist v of
        Inl e \<Rightarrow> Inl e
      | Inr i \<Rightarrow> index_scope vlist c vs (rows[i := rows ! i @ [c]]))"

fun index_constraints :: "vid list \<Rightarrow> 'a Constraint list \<Rightarrow> 'a Constraint list list
    \<Rightarrow> error + 'a Constraint list list" where
  "index_constraints vlist [] rows = Inr rows"
| "index_constraints vlist (c # cs) rows =
     (case index_scope vlist c (scope c) rows of
        Inl e \<Rightarrow> Inl e
      | Inr rows' \<Rightarrow> index_constraints vlist cs rows')"

definition CSP_init :: "string \<Rightarrow> vid list \<Rightarrow> 'a Constraint list \<Rightarrow> error + 'a CSP" where
  "CSP_init nm vlist clist =
     (case index_constraints vlist clist (replicate (length vlist) []) of
        Inl e \<Rightarrow> Inl e
      | Inr rows \<Rightarrow>
          Inr \<lparr>csp_name = nm, variables = vlist, constraints = clist,
               constraints_of = rows\<rparr>)"

text \<open>
  \<^verbatim>\<open>constraintsOf\<close>: any exception of the lookup is caught, a line is printed and the
  method returns \<^verbatim>\<open>None\<close>.
\<close>

definition constraintsOf :: "'a CSP \<Rightarrow> vid \<Rightarrow> 'a state
    \<Rightarrow> 'a Constraint list option \<times> 'a state" where
  "constraintsOf csp v s =
     (case list_index (variables csp) v of
        Inr i \<Rightarrow>
          (case list_get (constraints_of csp) i of
             Inr row \<Rightarrow> (Some row, s)
           | Inl e \<Rightarrow>
               (None, s\<lparr>stdout := stdout s @
                  [ConstraintsOfError (v_name (vars s v)) (csp_name csp)]\<rparr>))
      | Inl e \<Rightarrow>
          (None, s\<lparr>stdout := stdout s @
             [ConstraintsOfError (v_name (vars s v)) (csp_name csp)]\<rparr>))"

subsection \<open>class TableConstraint\<close>

text \<open>\<^verbatim>\<open>check\<close>: true as soon as a scope variable is unassigned.\<close>

fun assigned_values :: "'a state \<Rightarrow> vid list \<Rightarrow> 'a list option" where
  "assigned_values s [] = Some []"
| "assigned_values s (v # vs) =
     (if isAssigned (vars s v)
      then (case assigned_values s vs of
              None \<Rightarrow> None
            | Some xs \<Rightarrow> Some (the (getValue (vars s v)) # xs))
      else None)"

definition table_check :: "'a state \<Rightarrow> 'a Constraint \<Rightarrow> bool" where
  "table_check s c =
     (case assigned_values s (scope c) of
        None \<Rightarrow> True
      | Some assignments \<Rightarrow> assignments \<in> set (satAssignments c))"

text \<open>
  The inner loop of \<^verbatim>\<open>hasSupport\<close> over \<^verbatim>\<open>enumerate(self.scope())\<close>: the result is the
  value of \<^verbatim>\<open>found\<close> after the loop. \<^verbatim>\<open>assignment[i]\<close> is read only where \<open>i \<noteq> vindex\<close>.
\<close>

fun table_others :: "'a state \<Rightarrow> nat \<Rightarrow> 'a list \<Rightarrow> nat \<Rightarrow> vid list \<Rightarrow> error + bool" where
  "table_others s vindex assignment i [] = Inr True"
| "table_others s vindex assignment i (v # vs) =
     (if i \<noteq> vindex
      then (case list_get assignment i of
              Inl e \<Rightarrow> Inl e
            | Inr x \<Rightarrow>
                if \<not> inCurDomain (vars s v) x then Inr False
                else table_others s vindex assignment (Suc i) vs)
      else table_others s vindex assignment (Suc i) vs)"

fun table_tuples :: "'a state \<Rightarrow> vid list \<Rightarrow> nat \<Rightarrow> 'a \<Rightarrow> 'a list list \<Rightarrow> error + bool" where
  "table_tuples s scp vindex val [] = Inr False"
| "table_tuples s scp vindex val (assignment # rest) =
     (case list_get assignment vindex of
        Inl e \<Rightarrow> Inl e
      | Inr x \<Rightarrow>
          if x \<noteq> val then table_tuples s scp vindex val rest
          else (case table_others s vindex assignment 0 scp of
                  Inl e \<Rightarrow> Inl e
                | Inr found \<Rightarrow>
                    if found then Inr True else table_tuples s scp vindex val rest))"

definition table_hasSupport :: "'a state \<Rightarrow> vid list \<Rightarrow> 'a list list \<Rightarrow> vid \<Rightarrow> 'a
    \<Rightarrow> error + bool" where
  "table_hasSupport s scp sat var val =
     (if var \<notin> set scp then Inr True
      else (case list_index scp var of
              Inl e \<Rightarrow> Inl e
            | Inr vindex \<Rightarrow> table_tuples s scp vindex val sat))"

subsection \<open>findvals and class NValuesConstraint\<close>

text \<open>
  \<^verbatim>\<open>findvals_\<close> pops the last variable of \<^verbatim>\<open>remainingVars\<close> and tries its values in the
  order of \<^verbatim>\<open>curDomain()\<close>; \<open>findvals_for\<close> is its \<^verbatim>\<open>for\<close> loop. A call that returns
  False has put the variable back and popped the assignment, so the caller's lists are
  the ones it passed.
\<close>

function findvals_internal :: "'a state \<Rightarrow> vid list \<Rightarrow> (vid \<times> 'a) list
    \<Rightarrow> ((vid \<times> 'a) list \<Rightarrow> bool) \<Rightarrow> ((vid \<times> 'a) list \<Rightarrow> bool) \<Rightarrow> bool"
  and findvals_for :: "'a state \<Rightarrow> vid list \<Rightarrow> vid \<Rightarrow> 'a list \<Rightarrow> (vid \<times> 'a) list
    \<Rightarrow> ((vid \<times> 'a) list \<Rightarrow> bool) \<Rightarrow> ((vid \<times> 'a) list \<Rightarrow> bool) \<Rightarrow> bool" where
  "findvals_internal s remainingVars assignment finalTestfn partialTestfn =
     (if length remainingVars = 0 then finalTestfn assignment
      else findvals_for s (butlast remainingVars) (last remainingVars)
             (curDomain (vars s (last remainingVars))) assignment finalTestfn partialTestfn)"
| "findvals_for s remainingVars var [] assignment finalTestfn partialTestfn = False"
| "findvals_for s remainingVars var (val # vals) assignment finalTestfn partialTestfn =
     (if partialTestfn (assignment @ [(var, val)])
      then (if findvals_internal s remainingVars (assignment @ [(var, val)]) finalTestfn partialTestfn
            then True
            else findvals_for s remainingVars var vals assignment finalTestfn partialTestfn)
      else findvals_for s remainingVars var vals assignment finalTestfn partialTestfn)"
  by pat_completeness auto
termination
  by (relation "measures
        [\<lambda>x. case x of Inl (s, rv, r) \<Rightarrow> 2 * length rv + 1
                     | Inr (s, rv, r) \<Rightarrow> 2 * length rv + 2,
         \<lambda>x. case x of Inl r \<Rightarrow> 0 | Inr (s, rv, var, vals, r) \<Rightarrow> length vals]")
     (auto simp: length_greater_0_conv [symmetric] simp del: length_greater_0_conv)

text \<open>
  \<^verbatim>\<open>sort(reverse=True, key=curDomainSize)\<close> is stable: descending keys, equal keys in
  their original order.
\<close>

definition findvals :: "'a state \<Rightarrow> vid list \<Rightarrow> (vid \<times> 'a) list
    \<Rightarrow> ((vid \<times> 'a) list \<Rightarrow> bool) \<Rightarrow> ((vid \<times> 'a) list \<Rightarrow> bool) \<Rightarrow> bool" where
  "findvals s remainingVars assignment finalTestfn partialTestfn =
     findvals_internal s (rev (sort_key (\<lambda>v. curDomainSize (vars s v)) (rev remainingVars)))
       assignment finalTestfn partialTestfn"

definition valsOK :: "nat \<Rightarrow> 'a list \<Rightarrow> int \<Rightarrow> int \<Rightarrow> (vid \<times> 'a) list \<Rightarrow> bool" where
  "valsOK arity req lower upper l =
     (let vals = map snd l;
          rv_count = int (length (filter (\<lambda>v. v \<in> set req) vals));
          least = rv_count + int arity - int (length vals);
          most = rv_count
      in lower \<le> least \<and> upper \<ge> most)"

definition nvalues_hasSupport :: "'a state \<Rightarrow> vid list \<Rightarrow> 'a list \<Rightarrow> int \<Rightarrow> int \<Rightarrow> vid \<Rightarrow> 'a
    \<Rightarrow> bool" where
  "nvalues_hasSupport s scp req lower upper var val =
     (if var \<notin> set scp then True
      else (let varsToAssign = remove1 var scp
            in findvals s varsToAssign [(var, val)]
                 (valsOK (length scp) req lower upper) (valsOK (length scp) req lower upper)))"

fun hasSupport :: "'a state \<Rightarrow> 'a Constraint \<Rightarrow> vid \<Rightarrow> 'a \<Rightarrow> error + bool" where
  "hasSupport s (TableConstraint i nm scp sat) var val = table_hasSupport s scp sat var val"
| "hasSupport s (NValuesConstraint i nm scp req lower upper) var val =
     Inr (nvalues_hasSupport s scp req lower upper var val)"

subsection \<open>GacEnforce\<close>

datatype gac_result = OK | OWO

text \<open>
  The innermost loop, over \<^verbatim>\<open>csp.constraintsOf(var)\<close>: a constraint is appended when it
  is not the one being processed and not in the worklist.
\<close>

fun recheck_loop :: "'a Constraint \<Rightarrow> 'a Constraint list \<Rightarrow> 'a Constraint list
    \<Rightarrow> 'a Constraint list" where
  "recheck_loop cons [] worklist = worklist"
| "recheck_loop cons (recheck # rest) worklist =
     recheck_loop cons rest
       (if recheck \<noteq> cons \<and> recheck \<notin> set worklist then worklist @ [recheck] else worklist)"

text \<open>
  The loop over the values of \<^verbatim>\<open>var.curDomain()\<close>, a copy taken when the loop starts.
  The Boolean of the result says that the function has returned \<^verbatim>\<open>'OWO'\<close>. Where
  \<^verbatim>\<open>constraintsOf\<close> returns \<^verbatim>\<open>None\<close>, iterating over it raises TypeError.
\<close>

fun val_loop :: "'a CSP \<Rightarrow> 'a Constraint \<Rightarrow> vid \<Rightarrow> 'a \<Rightarrow> vid \<Rightarrow> 'a list
    \<Rightarrow> 'a Constraint list \<Rightarrow> 'a state \<Rightarrow> error + (bool \<times> 'a Constraint list \<times> 'a state)" where
  "val_loop csp cons assignedvar assignedval var [] worklist s = Inr (False, worklist, s)"
| "val_loop csp cons assignedvar assignedval var (val # vals) worklist s =
     (case hasSupport s cons var val of
        Inl e \<Rightarrow> Inl e
      | Inr supported \<Rightarrow>
          if \<not> supported
          then (let s1 = pruneValue var val assignedvar assignedval s in
                if curDomainSize (vars s1 var) = 0 then Inr (True, worklist, s1)
                else (case constraintsOf csp var s1 of
                        (None, s2) \<Rightarrow> Inl TypeError
                      | (Some rechecks, s2) \<Rightarrow>
                          val_loop csp cons assignedvar assignedval var vals
                            (recheck_loop cons rechecks worklist) s2))
          else val_loop csp cons assignedvar assignedval var vals worklist s)"

fun scope_loop :: "'a CSP \<Rightarrow> 'a Constraint \<Rightarrow> vid \<Rightarrow> 'a \<Rightarrow> vid list
    \<Rightarrow> 'a Constraint list \<Rightarrow> 'a state \<Rightarrow> error + (bool \<times> 'a Constraint list \<times> 'a state)" where
  "scope_loop csp cons assignedvar assignedval [] worklist s = Inr (False, worklist, s)"
| "scope_loop csp cons assignedvar assignedval (var # rest) worklist s =
     (case val_loop csp cons assignedvar assignedval var (curDomain (vars s var)) worklist s of
        Inl e \<Rightarrow> Inl e
      | Inr (returned, worklist', s') \<Rightarrow>
          if returned then Inr (True, worklist', s')
          else scope_loop csp cons assignedvar assignedval rest worklist' s')"

text \<open>
  The \<^verbatim>\<open>while\<close> loop may run forever, so it has fuel: one unit for every constraint popped;
  the result is \<open>None\<close> when the fuel does not suffice.
\<close>

fun GacEnforce :: "nat \<Rightarrow> 'a CSP \<Rightarrow> 'a Constraint list \<Rightarrow> vid \<Rightarrow> 'a \<Rightarrow> 'a state
    \<Rightarrow> (error + (gac_result \<times> 'a state)) option" where
  "GacEnforce fuel csp [] assignedvar assignedval s = Some (Inr (OK, s))"
| "GacEnforce 0 csp (cons # worklist) assignedvar assignedval s = None"
| "GacEnforce (Suc fuel) csp (cons # worklist) assignedvar assignedval s =
     (case scope_loop csp cons assignedvar assignedval (scope cons) worklist s of
        Inl e \<Rightarrow> Some (Inl e)
      | Inr (returned, worklist', s') \<Rightarrow>
          if returned then Some (Inr (OWO, s'))
          else GacEnforce fuel csp worklist' assignedvar assignedval s')"

subsection \<open>GAC\<close>

text \<open>
  The solution sink \<^verbatim>\<open>place_and_check_result\<close> reads the value of every variable of the
  CSP; what it does with them is the puzzle's business. The model records the
  assignment it is called on.
\<close>

definition place_and_check_result :: "'a CSP \<Rightarrow> 'a state \<Rightarrow> 'a state" where
  "place_and_check_result csp s =
     s\<lparr>sink_calls := sink_calls s @ [map (\<lambda>v. (v, getValue (vars s v))) (variables csp)]\<rparr>"

text \<open>
  \<^verbatim>\<open>GAC\<close> with its \<^verbatim>\<open>for\<close> loop \<open>GAC_vals\<close> over the copy of \<^verbatim>\<open>var.curDomain()\<close>. The list
  \<^verbatim>\<open>unAssignedVars\<close> is shared by all the calls, so it is passed along and returned.
  The fuel bounds the depth of the recursion and each run of \<^verbatim>\<open>GacEnforce\<close>. Where
  \<^verbatim>\<open>constraintsOf\<close> returns \<^verbatim>\<open>None\<close>, \<^verbatim>\<open>GacEnforce\<close> raises AttributeError at its \<^verbatim>\<open>pop\<close>.
\<close>

fun GAC :: "nat \<Rightarrow> 'a CSP \<Rightarrow> vid list \<Rightarrow> 'a state \<Rightarrow> (error + (vid list \<times> 'a state)) option"
  and GAC_vals :: "nat \<Rightarrow> 'a CSP \<Rightarrow> vid \<Rightarrow> 'a list \<Rightarrow> vid list \<Rightarrow> 'a state
    \<Rightarrow> (error + (vid list \<times> 'a state)) option" where
  "GAC fuel csp [] s = Some (Inr ([], place_and_check_result csp s))"
| "GAC 0 csp (var # rest) s = None"
| "GAC (Suc fuel) csp (var # rest) s =
     (case GAC_vals fuel csp var (curDomain (vars s var)) rest
             (s\<lparr>selected := selected s @ [(var, var # rest)]\<rparr>) of
        None \<Rightarrow> None
      | Some (Inl e) \<Rightarrow> Some (Inl e)
      | Some (Inr (unAssignedVars, s')) \<Rightarrow>
          Some (Inr (unAssignedVars @ [var], setValue var None s')))"
| "GAC_vals fuel csp var [] unAssignedVars s = Some (Inr (unAssignedVars, s))"
| "GAC_vals fuel csp var (val # vals) unAssignedVars s =
     (let s1 = setValue var (Some val) s in
      case constraintsOf csp var s1 of
        (None, s2) \<Rightarrow> Some (Inl AttributeError)
      | (Some worklist, s2) \<Rightarrow>
          (case GacEnforce fuel csp worklist var val s2 of
             None \<Rightarrow> None
           | Some (Inl e) \<Rightarrow> Some (Inl e)
           | Some (Inr (res, s3)) \<Rightarrow>
               (case (if res = OWO then Some (Inr (unAssignedVars, s3))
                      else GAC fuel csp unAssignedVars s3) of
                  None \<Rightarrow> None
                | Some (Inl e) \<Rightarrow> Some (Inl e)
                | Some (Inr (unAssignedVars', s4)) \<Rightarrow>
                    GAC_vals fuel csp var vals unAssignedVars' (restoreValues var val s4))))"

section \<open>Notions used to state the properties\<close>

text \<open>
  The values of a variable \<open>v\<close> that a set \<open>K\<close> of reason keys has logged in the undo
  dictionary, and the values that are in its current domain or logged under \<open>K\<close>.
\<close>

definition logged :: "'a state \<Rightarrow> (vid \<times> 'a) set \<Rightarrow> vid \<Rightarrow> 'a set" where
  "logged s K v = {x. \<exists>k\<in>K. \<exists>es. undoDict s k = Some es \<and> (v, x) \<in> set es}"

definition avail :: "'a state \<Rightarrow> (vid \<times> 'a) set \<Rightarrow> vid \<Rightarrow> 'a set" where
  "avail s K v = set (v_curdom (vars s v)) \<union> logged s K v"

text \<open>
  Every value of a current domain, every assigned value and every logged value of a
  variable is a value of its original domain.
\<close>

definition within_domains :: "'a state \<Rightarrow> bool" where
  "within_domains s =
     (\<forall>v. set (v_curdom (vars s v)) \<subseteq> set (v_dom (vars s v)) \<and>
          (\<forall>x. v_value (vars s v) = Some x \<longrightarrow> x \<in> set (v_dom (vars s v))) \<and>
          (\<forall>k es x. undoDict s k = Some es \<longrightarrow> (v, x) \<in> set es \<longrightarrow> x \<in> set (v_dom (vars s v))))"

text \<open>
  What a run of \<^verbatim>\<open>GacEnforce\<close> under the reason key \<open>k0\<close> may change: the current
  domains, the entry of \<open>k0\<close> and the printed lines.
\<close>

definition gac_frame :: "vid \<times> 'a \<Rightarrow> 'a state \<Rightarrow> 'a state \<Rightarrow> bool" where
  "gac_frame k0 s s' =
     ((\<forall>k. k \<noteq> k0 \<longrightarrow> undoDict s' k = undoDict s k) \<and>
      (\<forall>K v. k0 \<in> K \<longrightarrow> avail s K v \<subseteq> avail s' K v) \<and>
      (\<forall>v. v_dom (vars s' v) = v_dom (vars s v) \<and> v_value (vars s' v) = v_value (vars s v)
           \<and> v_name (vars s' v) = v_name (vars s v)) \<and>
      sink_calls s' = sink_calls s \<and> selected s' = selected s)"


text \<open>
  What the search may change: an entry of the undo dictionary stays or is deleted, no
  value leaves a current domain or the log, a variable of \<open>U\<close> may become unassigned
  and a pair of \<open>A\<close> may become an assignment.
\<close>

definition search_frame :: "vid set \<Rightarrow> (vid \<times> 'a) set \<Rightarrow> 'a state \<Rightarrow> 'a state \<Rightarrow> bool" where
  "search_frame U A s s' =
     ((\<forall>k. undoDict s' k = undoDict s k \<or> undoDict s' k = None) \<and>
      (\<forall>K v. avail s K v \<subseteq> avail s' K v) \<and>
      (\<forall>v. v_dom (vars s' v) = v_dom (vars s v)) \<and>
      (\<forall>v. v_value (vars s' v) = v_value (vars s v) \<or> (v \<in> U \<and> v_value (vars s' v) = None)
           \<or> (\<exists>x. (v, x) \<in> A \<and> v_value (vars s' v) = Some x)))"

text \<open>Every entry of a history of selections took the head of the list it popped.\<close>

definition picks_head :: "(vid \<times> vid list) list \<Rightarrow> bool" where
  "picks_head new = (\<forall>(v, pool) \<in> set new. pool \<noteq> [] \<and> v = hd pool)"

text \<open>
  Every entry of a history of selections took, of the variables of its list, the one
  that comes first in the list \<open>original\<close>.
\<close>

definition in_fixed_order :: "vid list \<Rightarrow> (vid \<times> vid list) list \<Rightarrow> bool" where
  "in_fixed_order original sel =
     list_all (\<lambda>(v, pool). find (\<lambda>u. u \<in> set pool) original = Some v) sel"

text \<open>Observations of the result of a search.\<close>

definition returns :: "(error + vid list \<times> 'a state) option \<Rightarrow> bool" where
  "returns r = (case r of Some (Inr p) \<Rightarrow> True | _ \<Rightarrow> False)"



definition sink_of :: "(error + vid list \<times> 'a state) option
    \<Rightarrow> (vid \<times> 'a option) list list option" where
  "sink_of r = (case r of Some (Inr (us, s)) \<Rightarrow> Some (sink_calls s) | _ \<Rightarrow> None)"

definition selected_of :: "(error + vid list \<times> 'a state) option
    \<Rightarrow> (vid \<times> vid list) list option" where
  "selected_of r = (case r of Some (Inr (us, s)) \<Rightarrow> Some (selected s) | _ \<Rightarrow> None)"

section \<open>Example problems\<close>

text \<open>A fresh state over a heap of variables: nothing logged, printed or found.\<close>

definition initial_state :: "(vid \<Rightarrow> 'a Variable) \<Rightarrow> 'a state" where
  "initial_state h = \<lparr>vars = h, undoDict = Map.empty, stdout = [], sink_calls = [], selected = []\<rparr>"

text \<open>Two variables A and B with the domain 1, 2 and the constraint that they differ.\<close>

definition heapAB :: "vid \<Rightarrow> int Variable" where
  "heapAB = (\<lambda>v. Variable_init [] [])(0 := Variable_init ''A'' [1, 2], 1 := Variable_init ''B'' [1, 2])"

definition c_neq :: "int Constraint" where
  "c_neq = TableConstraint 0 ''neq'' [0, 1] [[1, 2], [2, 1]]"

definition csp_neq :: "int CSP" where
  "csp_neq = \<lparr>csp_name = ''g'', variables = [0, 1], constraints = [c_neq],
      constraints_of = [[c_neq], [c_neq]]\<rparr>"

text \<open>Three variables, A with two values, B and C with one, and no constraint.\<close>

definition heapABC :: "vid \<Rightarrow> int Variable" where
  "heapABC = (\<lambda>v. Variable_init [] [])
     (0 := Variable_init ''A'' [1, 2], 1 := Variable_init ''B'' [1], 2 := Variable_init ''C'' [1])"

definition csp_free :: "int CSP" where
  "csp_free = \<lparr>csp_name = ''free'', variables = [0, 1, 2], constraints = [],
      constraints_of = [[], [], []]\<rparr>"

text \<open>Over these three variables: exactly three of them have the value 1.\<close>

definition c_three :: "int Constraint" where
  "c_three = NValuesConstraint 1 ''three'' [0, 1, 2] [1] 3 3"

text \<open>The variable A alone, with a constraint over A only that allows the value 2.\<close>

definition c_only2 :: "int Constraint" where
  "c_only2 = TableConstraint 0 ''only2'' [0] [[2]]"

definition csp_unary :: "int CSP" where
  "csp_unary = \<lparr>csp_name = ''unary'', variables = [0], constraints = [c_only2],
      constraints_of = [[c_only2]]\<rparr>"

text \<open>A and B with the constraint that both are 1.\<close>

definition c_one :: "int Constraint" where
  "c_one = TableConstraint 0 ''one'' [0, 1] [[1, 1]]"

definition csp_one :: "int CSP" where
  "csp_one = \<lparr>csp_name = ''g'', variables = [0, 1], constraints = [c_one],
      constraints_of = [[c_one], [c_one]]\<rparr>"

text \<open>
  \<^verbatim>\<open>GacEnforce\<close> run to success and then once more from the state it left, with the same
  worklist and reason: the result of the second run, the entry of the reason key and
  the printed lines after each run, and the current domain of the reason variable.
\<close>

definition second_run :: "nat \<Rightarrow> 'a CSP \<Rightarrow> 'a Constraint list \<Rightarrow> vid \<Rightarrow> 'a \<Rightarrow> 'a state
    \<Rightarrow> (gac_result \<times> (vid \<times> 'a) list option \<times> (vid \<times> 'a) list option \<times>
        'a message list \<times> 'a message list \<times> 'a list) option" where
  "second_run fuel csp worklist assignedvar assignedval s =
     (case GacEnforce fuel csp worklist assignedvar assignedval s of
        Some (Inr (OK, s1)) \<Rightarrow>
          (case GacEnforce fuel csp worklist assignedvar assignedval s1 of
             Some (Inr (res, s2)) \<Rightarrow>
               Some (res, undoDict s1 (assignedvar, assignedval),
                     undoDict s2 (assignedvar, assignedval), stdout s1, stdout s2,
                     v_curdom (vars s2 assignedvar))
           | _ \<Rightarrow> None)
      | _ \<Rightarrow> None)"

section \<open>Lemmas\<close>

lemma setValue_fields [simp]:
  "undoDict (setValue v x s) = undoDict s"
  "sink_calls (setValue v x s) = sink_calls s"
  "selected (setValue v x s) = selected s"
  "v_dom (vars (setValue v x s) u) = v_dom (vars s u)"
  "v_curdom (vars (setValue v x s) u) = v_curdom (vars s u)"
  "v_name (vars (setValue v x s) u) = v_name (vars s u)"
  by (simp_all add: setValue_def Let_def)

lemma setValue_value:
  "v_value (vars (setValue v x s) u) =
     (if u = v \<and> (x = None \<or> the x \<in> set (v_dom (vars s v))) then x else v_value (vars s u))"
  by (auto simp add: setValue_def Let_def)

lemma pruneValue_fields [simp]:
  "sink_calls (pruneValue v x rv rx s) = sink_calls s"
  "selected (pruneValue v x rv rx s) = selected s"
  "v_dom (vars (pruneValue v x rv rx s) u) = v_dom (vars s u)"
  "v_value (vars (pruneValue v x rv rx s) u) = v_value (vars s u)"
  "v_name (vars (pruneValue v x rv rx s) u) = v_name (vars s u)"
  by (simp_all add: pruneValue_def list_remove_def Let_def)

lemma pruneValue_curdom:
  "v_curdom (vars (pruneValue v x rv rx s) u) =
     (if u = v then remove1 x (v_curdom (vars s v)) else v_curdom (vars s u))"
  by (simp add: pruneValue_def list_remove_def Let_def remove1_idem)

lemma pruneValue_undoDict:
  "undoDict (pruneValue v x rv rx s) =
     (undoDict s)((rv, rx) \<mapsto> (case undoDict s (rv, rx) of None \<Rightarrow> [] | Some es \<Rightarrow> es) @ [(v, x)])"
  by (auto simp add: pruneValue_def list_remove_def Let_def split: option.splits)

lemma pruneValue_stdout:
  "stdout (pruneValue v x rv rx s) =
     stdout s @ (if x \<in> set (v_curdom (vars s v)) then [] else [PruneError x (v_name (vars s v))])"
  by (simp add: pruneValue_def list_remove_def Let_def)

lemma constraintsOf_state:
  "constraintsOf csp v s = (r, s') \<Longrightarrow> vars s' = vars s \<and> undoDict s' = undoDict s \<and> sink_calls s' = sink_calls s \<and> selected s' = selected s"
  by (auto simp: constraintsOf_def split: sum.splits)

lemma fold_restoreVal_fields [simp]:
  "undoDict (fold (\<lambda>(var, val). restoreVal var val) es s) = undoDict s"
  "stdout (fold (\<lambda>(var, val). restoreVal var val) es s) = stdout s"
  "sink_calls (fold (\<lambda>(var, val). restoreVal var val) es s) = sink_calls s"
  "selected (fold (\<lambda>(var, val). restoreVal var val) es s) = selected s"
  "v_dom (vars (fold (\<lambda>(var, val). restoreVal var val) es s) u) = v_dom (vars s u)"
  "v_value (vars (fold (\<lambda>(var, val). restoreVal var val) es s) u) = v_value (vars s u)"
  "v_name (vars (fold (\<lambda>(var, val). restoreVal var val) es s) u) = v_name (vars s u)"
  by (induction es arbitrary: s; simp add: restoreVal_def split: prod.splits)+

lemma fold_restoreVal_curdom:
  "v_curdom (vars (fold (\<lambda>(var, val). restoreVal var val) es s) u) =
     v_curdom (vars s u) @ map snd (filter (\<lambda>e. fst e = u) es)"
  by (induction es arbitrary: s) (auto simp add: restoreVal_def split: prod.splits)

lemma restoreValues_fields [simp]:
  "stdout (restoreValues rv rx s) = stdout s"
  "sink_calls (restoreValues rv rx s) = sink_calls s"
  "selected (restoreValues rv rx s) = selected s"
  "v_dom (vars (restoreValues rv rx s) u) = v_dom (vars s u)"
  "v_value (vars (restoreValues rv rx s) u) = v_value (vars s u)"
  "v_name (vars (restoreValues rv rx s) u) = v_name (vars s u)"
  by (simp_all add: restoreValues_def Let_def split: option.splits)

lemma restoreValues_undoDict:
  "undoDict (restoreValues rv rx s) = (undoDict s)((rv, rx) := None)"
  by (auto simp add: restoreValues_def Let_def split: option.splits)

lemma restoreValues_curdom:
  "v_curdom (vars (restoreValues rv rx s) u) =
     v_curdom (vars s u) @
       map snd (filter (\<lambda>e. fst e = u) (case undoDict s (rv, rx) of None \<Rightarrow> [] | Some es \<Rightarrow> es))"
  by (simp add: restoreValues_def Let_def fold_restoreVal_curdom split: option.splits)

lemma gac_frameI:
  assumes "\<And>k. k \<noteq> k0 \<Longrightarrow> undoDict s' k = undoDict s k"
    and "\<And>K v. k0 \<in> K \<Longrightarrow> avail s K v \<subseteq> avail s' K v"
    and "\<And>v. v_dom (vars s' v) = v_dom (vars s v)"
    and "\<And>v. v_value (vars s' v) = v_value (vars s v)"
    and "\<And>v. v_name (vars s' v) = v_name (vars s v)"
    and "sink_calls s' = sink_calls s" and "selected s' = selected s"
  shows "gac_frame k0 s s'"
  unfolding gac_frame_def using assms by blast

lemma gac_frameD:
  assumes "gac_frame k0 s s'"
  shows "k \<noteq> k0 \<Longrightarrow> undoDict s' k = undoDict s k"
    and "k0 \<in> K \<Longrightarrow> avail s K v \<subseteq> avail s' K v"
    and "v_dom (vars s' v) = v_dom (vars s v)"
    and "v_value (vars s' v) = v_value (vars s v)"
    and "v_name (vars s' v) = v_name (vars s v)"
    and "sink_calls s' = sink_calls s" and "selected s' = selected s"
  using assms unfolding gac_frame_def by blast+

lemma gac_frame_refl: "gac_frame k0 s s"
  by (rule gac_frameI) simp_all

lemma gac_frame_trans:
  assumes a: "gac_frame k0 s s1" and b: "gac_frame k0 s1 s2"
  shows "gac_frame k0 s s2"
proof (rule gac_frameI)
  fix K v assume "k0 \<in> K"
  then have "avail s K v \<subseteq> avail s1 K v" "avail s1 K v \<subseteq> avail s2 K v"
    using gac_frameD(2) [OF a] gac_frameD(2) [OF b] by blast+
  then show "avail s K v \<subseteq> avail s2 K v" by (rule order_trans)
qed (simp_all add: gac_frameD [OF a] gac_frameD [OF b])

lemma avail_pruneValue: "(rv, rx) \<in> K \<Longrightarrow> avail s K u \<subseteq> avail (pruneValue v x rv rx s) K u"
proof
  fix y assume K: "(rv, rx) \<in> K" and y: "y \<in> avail s K u"
  show "y \<in> avail (pruneValue v x rv rx s) K u"
  proof (cases "u = v \<and> y = x")
    case True
    have "(v, x) \<in> set (the (undoDict (pruneValue v x rv rx s) (rv, rx)))"
      by (simp add: pruneValue_undoDict)
    moreover have "undoDict (pruneValue v x rv rx s) (rv, rx) \<noteq> None"
      by (simp add: pruneValue_undoDict)
    ultimately show ?thesis using K True
      by (auto simp: avail_def logged_def)
  next
    case False
    from y consider "y \<in> set (v_curdom (vars s u))" | "y \<in> logged s K u"
      by (auto simp: avail_def)
    then show ?thesis
    proof cases
      case 1
      with False have "y \<in> set (v_curdom (vars (pruneValue v x rv rx s) u))"
        by (auto simp: pruneValue_curdom)
      then show ?thesis by (simp add: avail_def)
    next
      case 2
      then obtain k es where k: "k \<in> K" "undoDict s k = Some es" "(u, y) \<in> set es"
        by (auto simp: logged_def)
      then have "\<exists>es'. undoDict (pruneValue v x rv rx s) k = Some es' \<and> (u, y) \<in> set es'"
        by (cases "k = (rv, rx)") (auto simp: pruneValue_undoDict)
      with k(1) show ?thesis by (auto simp: avail_def logged_def)
    qed
  qed
qed

lemma gac_frame_pruneValue: "gac_frame (rv, rx) s (pruneValue v x rv rx s)"
  by (rule gac_frameI) (simp_all add: avail_pruneValue pruneValue_undoDict)

lemma gac_frame_constraintsOf: "constraintsOf csp v s = (r, s') \<Longrightarrow> gac_frame k0 s s'"
  by (drule constraintsOf_state, rule gac_frameI) (simp_all add: avail_def logged_def)

lemma within_domainsI:
  assumes "\<And>v x. x \<in> set (v_curdom (vars s v)) \<Longrightarrow> x \<in> set (v_dom (vars s v))"
    and "\<And>v x. v_value (vars s v) = Some x \<Longrightarrow> x \<in> set (v_dom (vars s v))"
    and "\<And>v k es x. undoDict s k = Some es \<Longrightarrow> (v, x) \<in> set es \<Longrightarrow> x \<in> set (v_dom (vars s v))"
  shows "within_domains s"
  unfolding within_domains_def using assms by blast

lemma within_domainsD:
  assumes "within_domains s"
  shows "x \<in> set (v_curdom (vars s v)) \<Longrightarrow> x \<in> set (v_dom (vars s v))"
    and "v_value (vars s v) = Some x \<Longrightarrow> x \<in> set (v_dom (vars s v))"
    and "undoDict s k = Some es \<Longrightarrow> (v, x) \<in> set es \<Longrightarrow> x \<in> set (v_dom (vars s v))"
  using assms unfolding within_domains_def by blast+

lemma within_domains_pruneValue:
  assumes wd: "within_domains s" and x: "x \<in> set (v_dom (vars s v))"
  shows "within_domains (pruneValue v x rv rx s)"
proof (rule within_domainsI)
  fix u y assume "y \<in> set (v_curdom (vars (pruneValue v x rv rx s) u))"
  then have "y \<in> set (v_curdom (vars s u))"
    using notin_set_remove1 [of y "v_curdom (vars s v)" x]
    by (cases "u = v") (auto simp: pruneValue_curdom)
  then show "y \<in> set (v_dom (vars (pruneValue v x rv rx s) u))"
    using within_domainsD(1) [OF wd] by simp
next
  fix u y assume "v_value (vars (pruneValue v x rv rx s) u) = Some y"
  then show "y \<in> set (v_dom (vars (pruneValue v x rv rx s) u))"
    using within_domainsD(2) [OF wd] by simp
next
  fix u k es y
  assume e: "undoDict (pruneValue v x rv rx s) k = Some es" "(u, y) \<in> set es"
  show "y \<in> set (v_dom (vars (pruneValue v x rv rx s) u))"
  proof (cases "k = (rv, rx)")
    case True
    with e have "(u, y) \<in> set (case undoDict s (rv, rx) of None \<Rightarrow> [] | Some es \<Rightarrow> es) \<or> (u, y) = (v, x)"
      by (auto simp: pruneValue_undoDict)
    then show ?thesis
    proof
      assume "(u, y) \<in> set (case undoDict s (rv, rx) of None \<Rightarrow> [] | Some es \<Rightarrow> es)"
      then obtain es0 where "undoDict s (rv, rx) = Some es0" "(u, y) \<in> set es0"
        by (cases "undoDict s (rv, rx)") auto
      then show ?thesis using within_domainsD(3) [OF wd] by simp
    next
      assume "(u, y) = (v, x)"
      then show ?thesis using x by simp
    qed
  next
    case False
    with e have "undoDict s k = Some es" by (simp add: pruneValue_undoDict)
    with e(2) show ?thesis using within_domainsD(3) [OF wd] by simp
  qed
qed

lemma within_domains_constraintsOf:
  "constraintsOf csp v s = (r, s') \<Longrightarrow> within_domains s \<Longrightarrow> within_domains s'"
  by (drule constraintsOf_state) (simp add: within_domains_def)

lemma val_loop_frame:
  "val_loop csp cons av ax var vals wl s = Inr (b, wl', s') \<Longrightarrow> gac_frame (av, ax) s s'"
proof (induction vals arbitrary: wl s)
  case Nil
  then show ?case by (simp add: gac_frame_refl)
next
  case (Cons val vals)
  show ?case
  proof (cases "hasSupport s cons var val")
    case (Inl e)
    with Cons.prems show ?thesis by simp
  next
    case (Inr supported)
    show ?thesis
    proof (cases supported)
      case True
      with Inr Cons show ?thesis by simp
    next
      case False
      let ?s1 = "pruneValue var val av ax s"
      have f1: "gac_frame (av, ax) s ?s1" by (rule gac_frame_pruneValue)
      show ?thesis
      proof (cases "curDomainSize (vars ?s1 var) = 0")
        case True
        with False Inr Cons.prems f1 show ?thesis by (simp add: Let_def)
      next
        case nz: False
        obtain r s2 where c: "constraintsOf csp var ?s1 = (r, s2)" by (cases "constraintsOf csp var ?s1")
        with False Inr Cons.prems nz obtain rechecks where r: "r = Some rechecks"
          and rest: "val_loop csp cons av ax var vals (recheck_loop cons rechecks wl) s2 = Inr (b, wl', s')"
          by (cases r) (auto simp: Let_def)
        from Cons.IH [OF rest] gac_frame_constraintsOf [OF c] f1 show ?thesis
          by (blast intro: gac_frame_trans)
      qed
    qed
  qed
qed

lemma scope_loop_frame:
  "scope_loop csp cons av ax scp wl s = Inr (b, wl', s') \<Longrightarrow> gac_frame (av, ax) s s'"
proof (induction scp arbitrary: wl s)
  case Nil
  then show ?case by (simp add: gac_frame_refl)
next
  case (Cons var rest)
  from Cons.prems obtain b1 wl1 s1 where
    v: "val_loop csp cons av ax var (curDomain (vars s var)) wl s = Inr (b1, wl1, s1)"
    by (auto split: sum.splits)
  show ?case
  proof (cases b1)
    case True
    with v Cons.prems val_loop_frame [OF v] show ?thesis by simp
  next
    case False
    with v Cons.prems have "scope_loop csp cons av ax rest wl1 s1 = Inr (b, wl', s')" by simp
    from Cons.IH [OF this] val_loop_frame [OF v] show ?thesis by (rule gac_frame_trans [rotated])
  qed
qed

lemma GacEnforce_frame:
  "GacEnforce fuel csp wl av ax s = Some (Inr (res, s')) \<Longrightarrow> gac_frame (av, ax) s s'"
proof (induction fuel csp wl av ax s rule: GacEnforce.induct)
  case (1 fuel csp av ax s)
  then show ?case by (simp add: gac_frame_refl)
next
  case (2 csp cons wl av ax s)
  then show ?case by simp
next
  case (3 fuel csp cons wl av ax s)
  from "3.prems" obtain b1 wl1 s1 where
    sl: "scope_loop csp cons av ax (scope cons) wl s = Inr (b1, wl1, s1)"
    by (auto split: sum.splits)
  show ?case
  proof (cases b1)
    case True
    with sl "3.prems" scope_loop_frame [OF sl] show ?thesis by simp
  next
    case False
    with sl "3.prems" have "GacEnforce fuel csp wl1 av ax s1 = Some (Inr (res, s'))" by simp
    from "3.IH" [OF sl refl refl False this] scope_loop_frame [OF sl] show ?thesis
      by (rule gac_frame_trans [rotated])
  qed
qed

lemma within_domains_setValue:
  assumes wd: "within_domains s"
  shows "within_domains (setValue v x s)"
proof (rule within_domainsI)
  fix u y assume "v_value (vars (setValue v x s) u) = Some y"
  then show "y \<in> set (v_dom (vars (setValue v x s) u))"
    using within_domainsD(2) [OF wd, of u y] by (auto simp: setValue_value split: if_splits)
next
  fix u y assume "y \<in> set (v_curdom (vars (setValue v x s) u))"
  then show "y \<in> set (v_dom (vars (setValue v x s) u))"
    using within_domainsD(1) [OF wd, of y u] by simp
next
  fix u k es y assume "undoDict (setValue v x s) k = Some es" "(u, y) \<in> set es"
  then show "y \<in> set (v_dom (vars (setValue v x s) u))"
    using within_domainsD(3) [OF wd, of k es u y] by simp
qed

lemma within_domains_restoreValues:
  assumes wd: "within_domains s"
  shows "within_domains (restoreValues rv rx s)"
proof (rule within_domainsI)
  fix u y assume "y \<in> set (v_curdom (vars (restoreValues rv rx s) u))"
  then consider "y \<in> set (v_curdom (vars s u))"
    | es where "undoDict s (rv, rx) = Some es" "(u, y) \<in> set es"
    by (cases "undoDict s (rv, rx)") (auto simp: restoreValues_curdom)
  then show "y \<in> set (v_dom (vars (restoreValues rv rx s) u))"
    using within_domainsD(1,3) [OF wd] by cases simp_all
next
  fix u y assume "v_value (vars (restoreValues rv rx s) u) = Some y"
  then show "y \<in> set (v_dom (vars (restoreValues rv rx s) u))"
    using within_domainsD(2) [OF wd] by simp
next
  fix u k es y
  assume "undoDict (restoreValues rv rx s) k = Some es" "(u, y) \<in> set es"
  then show "y \<in> set (v_dom (vars (restoreValues rv rx s) u))"
    using within_domainsD(3) [OF wd, of k es u y]
    by (cases "k = (rv, rx)") (simp_all add: restoreValues_undoDict)
qed

lemma within_domains_sink: "within_domains (place_and_check_result csp s) = within_domains s"
  by (simp add: within_domains_def place_and_check_result_def)

lemma within_domains_selected: "within_domains (s\<lparr>selected := x\<rparr>) = within_domains s"
  by (simp add: within_domains_def)

lemma val_loop_within:
  "val_loop csp cons av ax var vals wl s = Inr (b, wl', s') \<Longrightarrow> within_domains s \<Longrightarrow>
   set vals \<subseteq> set (v_dom (vars s var)) \<Longrightarrow> within_domains s'"
proof (induction vals arbitrary: wl s)
  case Nil
  then show ?case by simp
next
  case (Cons val vals)
  show ?case
  proof (cases "hasSupport s cons var val")
    case (Inl e)
    with Cons.prems show ?thesis by simp
  next
    case (Inr supported)
    show ?thesis
    proof (cases supported)
      case True
      with Inr Cons show ?thesis by simp
    next
      case False
      let ?s1 = "pruneValue var val av ax s"
      have w1: "within_domains ?s1"
        using Cons.prems by (intro within_domains_pruneValue) simp_all
      show ?thesis
      proof (cases "curDomainSize (vars ?s1 var) = 0")
        case True
        with False Inr Cons.prems w1 show ?thesis by (simp add: Let_def)
      next
        case nz: False
        obtain r s2 where c: "constraintsOf csp var ?s1 = (r, s2)" by (cases "constraintsOf csp var ?s1")
        with False Inr Cons.prems nz obtain rechecks where r: "r = Some rechecks"
          and rest: "val_loop csp cons av ax var vals (recheck_loop cons rechecks wl) s2 = Inr (b, wl', s')"
          by (cases r) (auto simp: Let_def)
        have "vars s2 = vars ?s1" using constraintsOf_state [OF c] by simp
        then have "set vals \<subseteq> set (v_dom (vars s2 var))" using Cons.prems(3) by simp
        with Cons.IH [OF rest within_domains_constraintsOf [OF c w1]] show ?thesis .
      qed
    qed
  qed
qed

lemma curDomain_within:
  assumes wd: "within_domains s"
  shows "set (curDomain (vars s v)) \<subseteq> set (v_dom (vars s v))"
proof
  fix y assume "y \<in> set (curDomain (vars s v))"
  then have "y \<in> set (v_curdom (vars s v)) \<or> v_value (vars s v) = Some y"
    by (auto simp: curDomain_def isAssigned_def getValue_def split: if_splits)
  then show "y \<in> set (v_dom (vars s v))"
    using within_domainsD(1,2) [OF wd] by blast
qed

lemma scope_loop_within:
  "scope_loop csp cons av ax scp wl s = Inr (b, wl', s') \<Longrightarrow> within_domains s \<Longrightarrow> within_domains s'"
proof (induction scp arbitrary: wl s)
  case Nil
  then show ?case by simp
next
  case (Cons var rest)
  from Cons.prems obtain b1 wl1 s1 where
    v: "val_loop csp cons av ax var (curDomain (vars s var)) wl s = Inr (b1, wl1, s1)"
    by (auto split: sum.splits)
  have w1: "within_domains s1"
    using val_loop_within [OF v Cons.prems(2) curDomain_within [OF Cons.prems(2)]] .
  show ?case
  proof (cases b1)
    case True
    with v Cons.prems w1 show ?thesis by simp
  next
    case False
    with v Cons.prems have "scope_loop csp cons av ax rest wl1 s1 = Inr (b, wl', s')" by simp
    from Cons.IH [OF this w1] show ?thesis .
  qed
qed

lemma GacEnforce_within:
  "GacEnforce fuel csp wl av ax s = Some (Inr (res, s')) \<Longrightarrow> within_domains s \<Longrightarrow> within_domains s'"
proof (induction fuel csp wl av ax s rule: GacEnforce.induct)
  case (1 fuel csp av ax s)
  then show ?case by simp
next
  case (2 csp cons wl av ax s)
  then show ?case by simp
next
  case (3 fuel csp cons wl av ax s)
  from "3.prems" obtain b1 wl1 s1 where
    sl: "scope_loop csp cons av ax (scope cons) wl s = Inr (b1, wl1, s1)"
    by (auto split: sum.splits)
  have w1: "within_domains s1" using scope_loop_within [OF sl "3.prems"(2)] .
  show ?case
  proof (cases b1)
    case True
    with sl "3.prems" w1 show ?thesis by simp
  next
    case False
    with sl "3.prems" have "GacEnforce fuel csp wl1 av ax s1 = Some (Inr (res, s'))" by simp
    from "3.IH" [OF sl refl refl False this w1] show ?thesis .
  qed
qed

lemma search_frameI:
  assumes "\<And>k. undoDict s' k = undoDict s k \<or> undoDict s' k = None"
    and "\<And>K v. avail s K v \<subseteq> avail s' K v"
    and "\<And>v. v_dom (vars s' v) = v_dom (vars s v)"
    and "\<And>v. v_value (vars s' v) = v_value (vars s v) \<or> (v \<in> U \<and> v_value (vars s' v) = None)
           \<or> (\<exists>x. (v, x) \<in> A \<and> v_value (vars s' v) = Some x)"
  shows "search_frame U A s s'"
  unfolding search_frame_def using assms by blast

lemma search_frameD:
  assumes "search_frame U A s s'"
  shows "undoDict s' k = undoDict s k \<or> undoDict s' k = None"
    and "avail s K v \<subseteq> avail s' K v"
    and "v_dom (vars s' v) = v_dom (vars s v)"
    and "v_value (vars s' v) = v_value (vars s v) \<or> (v \<in> U \<and> v_value (vars s' v) = None)
           \<or> (\<exists>x. (v, x) \<in> A \<and> v_value (vars s' v) = Some x)"
proof -
  from assms have a: "\<forall>k. undoDict s' k = undoDict s k \<or> undoDict s' k = None"
    and b: "\<forall>K v. avail s K v \<subseteq> avail s' K v"
    and c: "\<forall>v. v_dom (vars s' v) = v_dom (vars s v)"
    and d: "\<forall>v. v_value (vars s' v) = v_value (vars s v) \<or> (v \<in> U \<and> v_value (vars s' v) = None)
           \<or> (\<exists>x. (v, x) \<in> A \<and> v_value (vars s' v) = Some x)"
    unfolding search_frame_def by simp_all
  show "undoDict s' k = undoDict s k \<or> undoDict s' k = None" using a by (rule spec)
  show "avail s K v \<subseteq> avail s' K v" using b by simp
  show "v_dom (vars s' v) = v_dom (vars s v)" using c by (rule spec)
  show "v_value (vars s' v) = v_value (vars s v) \<or> (v \<in> U \<and> v_value (vars s' v) = None)
           \<or> (\<exists>x. (v, x) \<in> A \<and> v_value (vars s' v) = Some x)" using d by (rule spec)
qed

lemma search_frame_refl: "search_frame U A s s"
  by (rule search_frameI) simp_all

lemma search_frame_trans:
  assumes a: "search_frame U A s s1" and b: "search_frame U' A' s1 s2"
    and sub: "U \<subseteq> V" "U' \<subseteq> V" "A \<subseteq> B" "A' \<subseteq> B"
  shows "search_frame V B s s2"
proof (rule search_frameI)
  fix k show "undoDict s2 k = undoDict s k \<or> undoDict s2 k = None"
    using search_frameD(1) [OF a, of k] search_frameD(1) [OF b, of k] by auto
next
  fix K v show "avail s K v \<subseteq> avail s2 K v"
    using search_frameD(2) [OF a, of K v] search_frameD(2) [OF b, of K v] by (rule order_trans)
next
  fix v show "v_dom (vars s2 v) = v_dom (vars s v)"
    using search_frameD(3) [OF a] search_frameD(3) [OF b] by simp
next
  fix v
  show "v_value (vars s2 v) = v_value (vars s v) \<or> (v \<in> V \<and> v_value (vars s2 v) = None)
           \<or> (\<exists>x. (v, x) \<in> B \<and> v_value (vars s2 v) = Some x)"
    using search_frameD(4) [OF a, of v] search_frameD(4) [OF b, of v] sub by auto
qed

lemma avail_mono: "K \<subseteq> K' \<Longrightarrow> avail s K v \<subseteq> avail s K' v"
  by (auto simp: avail_def logged_def)

lemma avail_restoreValues: "avail s (insert (rv, rx) K) v \<subseteq> avail (restoreValues rv rx s) K v"
proof
  fix y assume "y \<in> avail s (insert (rv, rx) K) v"
  then consider "y \<in> set (v_curdom (vars s v))"
    | es where "undoDict s (rv, rx) = Some es" "(v, y) \<in> set es"
    | k es where "k \<in> K" "k \<noteq> (rv, rx)" "undoDict s k = Some es" "(v, y) \<in> set es"
    by (auto simp: avail_def logged_def)
  then show "y \<in> avail (restoreValues rv rx s) K v"
  proof cases
    case 1
    then show ?thesis by (simp add: avail_def restoreValues_curdom)
  next
    case 2
    then have "y \<in> set (v_curdom (vars (restoreValues rv rx s) v))"
      by (force simp: restoreValues_curdom)
    then show ?thesis by (simp add: avail_def)
  next
    case 3
    then have "undoDict (restoreValues rv rx s) k = Some es" by (simp add: restoreValues_undoDict)
    with 3 show ?thesis by (auto simp: avail_def logged_def)
  qed
qed

lemma attempt_frame:
  assumes c: "constraintsOf csp var (setValue var (Some val) s) = (r, s2)"
    and g: "gac_frame (var, val) s2 s3"
    and n: "search_frame U {} s3 s4"
  shows "search_frame U {(var, val)} s (restoreValues var val s4)"
proof (rule search_frameI)
  note c' = constraintsOf_state [OF c]
  fix k show "undoDict (restoreValues var val s4) k = undoDict s k \<or> undoDict (restoreValues var val s4) k = None"
  proof (cases "k = (var, val)")
    case True
    then show ?thesis by (simp add: restoreValues_undoDict)
  next
    case False
    then have "undoDict s3 k = undoDict s k" using gac_frameD(1) [OF g False] c' by simp
    with search_frameD(1) [OF n, of k] False show ?thesis by (auto simp: restoreValues_undoDict)
  qed
next
  note c' = constraintsOf_state [OF c]
  fix K v
  have "avail s K v \<subseteq> avail s (insert (var, val) K) v" by (rule avail_mono) auto
  also have "\<dots> = avail s2 (insert (var, val) K) v" using c' by (simp add: avail_def logged_def)
  also have "\<dots> \<subseteq> avail s3 (insert (var, val) K) v" by (rule gac_frameD(2) [OF g]) simp
  also have "\<dots> \<subseteq> avail s4 (insert (var, val) K) v" by (rule search_frameD(2) [OF n])
  also have "\<dots> \<subseteq> avail (restoreValues var val s4) K v" by (rule avail_restoreValues)
  finally show "avail s K v \<subseteq> avail (restoreValues var val s4) K v" .
next
  note c' = constraintsOf_state [OF c]
  fix v show "v_dom (vars (restoreValues var val s4) v) = v_dom (vars s v)"
    using search_frameD(3) [OF n] gac_frameD(3) [OF g] c' by simp
next
  note c' = constraintsOf_state [OF c]
  fix v
  have "v_value (vars s3 v) = v_value (vars (setValue var (Some val) s) v)"
    using gac_frameD(4) [OF g] c' by simp
  then have "v_value (vars s3 v) = v_value (vars s v) \<or> (v, val) \<in> {(var, val)} \<and> v_value (vars s3 v) = Some val"
    by (auto simp: setValue_value split: if_splits)
  with search_frameD(4) [OF n, of v]
  show "v_value (vars (restoreValues var val s4) v) = v_value (vars s v)
      \<or> (v \<in> U \<and> v_value (vars (restoreValues var val s4) v) = None)
      \<or> (\<exists>x. (v, x) \<in> {(var, val)} \<and> v_value (vars (restoreValues var val s4) v) = Some x)"
    by auto
qed

lemma GAC_vals_Cons_cases:
  assumes "GAC_vals fuel csp var (val # vals) us s = Some (Inr (us', s'))"
  obtains wl s2 res s3 us4 s4 where
    "constraintsOf csp var (setValue var (Some val) s) = (Some wl, s2)"
    "GacEnforce fuel csp wl var val s2 = Some (Inr (res, s3))"
    "res = OWO \<and> us4 = us \<and> s4 = s3 \<or> res \<noteq> OWO \<and> GAC fuel csp us s3 = Some (Inr (us4, s4))"
    "GAC_vals fuel csp var vals us4 (restoreValues var val s4) = Some (Inr (us', s'))"
proof -
  obtain r s2 where c: "constraintsOf csp var (setValue var (Some val) s) = (r, s2)"
    by (cases "constraintsOf csp var (setValue var (Some val) s)")
  from assms c obtain wl where r: "r = Some wl" by (cases r) (auto simp: Let_def)
  from assms c r obtain res s3 where g: "GacEnforce fuel csp wl var val s2 = Some (Inr (res, s3))"
    by (auto simp: Let_def split: option.splits sum.splits)
  from assms c r g obtain us4 s4 where
    n: "(if res = OWO then Some (Inr (us, s3)) else GAC fuel csp us s3) = Some (Inr (us4, s4))"
    and rest: "GAC_vals fuel csp var vals us4 (restoreValues var val s4) = Some (Inr (us', s'))"
    by (auto simp: Let_def split: option.splits sum.splits)
  from n have "res = OWO \<and> us4 = us \<and> s4 = s3 \<or> res \<noteq> OWO \<and> GAC fuel csp us s3 = Some (Inr (us4, s4))"
    by (auto split: if_splits)
  with c r g rest that show thesis by blast
qed

lemma GAC_Cons_cases:
  assumes "GAC fuel csp (var # rest) s = Some (Inr (us', s'))"
  obtains fuel' us2 s2 where "fuel = Suc fuel'"
    "GAC_vals fuel' csp var (curDomain (vars s var)) rest
       (s\<lparr>selected := selected s @ [(var, var # rest)]\<rparr>) = Some (Inr (us2, s2))"
    "us' = us2 @ [var]" "s' = setValue var None s2"
  using assms by (cases fuel) (auto split: option.splits sum.splits)

lemma GAC_rule:
  assumes sink: "\<And>s. P [] s [] (place_and_check_result csp s)"
    and nil: "\<And>var us s. Q var [] us s us s"
    and pop: "\<And>var rest s us2 s2.
        Q var (curDomain (vars s var)) rest (s\<lparr>selected := selected s @ [(var, var # rest)]\<rparr>) us2 s2
        \<Longrightarrow> P (var # rest) s (us2 @ [var]) (setValue var None s2)"
    and attempt: "\<And>fuel var val vals us s wl s2 res s3 us4 s4 us' s'.
        constraintsOf csp var (setValue var (Some val) s) = (Some wl, s2) \<Longrightarrow>
        GacEnforce fuel csp wl var val s2 = Some (Inr (res, s3)) \<Longrightarrow>
        res = OWO \<and> us4 = us \<and> s4 = s3 \<or> res \<noteq> OWO \<and> P us s3 us4 s4 \<Longrightarrow>
        Q var vals us4 (restoreValues var val s4) us' s' \<Longrightarrow>
        Q var (val # vals) us s us' s'"
  shows "GAC fuel csp us s = Some (Inr (us', s')) \<Longrightarrow> P us s us' s'"
    and "GAC_vals fuel csp var vals us s = Some (Inr (us', s')) \<Longrightarrow> Q var vals us s us' s'"
  using sink nil pop attempt
proof (induction fuel csp us s and fuel csp var vals us s arbitrary: us' s' and us' s'
    rule: GAC_GAC_vals.induct)
  case (1 fuel csp s)
  from "1.prems"(1) have "us' = []" "s' = place_and_check_result csp s" by auto
  then show ?case using "1.prems"(2) by simp
next
  case (2 csp var rest s)
  then show ?case by simp
next
  case (3 fuel csp var rest s)
  from "3.prems"(1) obtain us2 s2 where
    v: "GAC_vals fuel csp var (curDomain (vars s var)) rest
         (s\<lparr>selected := selected s @ [(var, var # rest)]\<rparr>) = Some (Inr (us2, s2))"
    and e: "us' = us2 @ [var]" "s' = setValue var None s2"
    by (auto split: option.splits sum.splits)
  from "3.IH" [OF v "3.prems"(2-5)] e show ?case by (simp add: "3.prems"(4))
next
  case (4 fuel csp var unAssignedVars s)
  from "4.prems"(1) have "us' = unAssignedVars" "s' = s" by auto
  then show ?case using "4.prems"(3) by simp
next
  case (5 fuel csp var val vals us s)
  from "5.prems"(1) obtain wl s2 res s3 us4 s4 where
    c: "constraintsOf csp var (setValue var (Some val) s) = (Some wl, s2)"
    and g: "GacEnforce fuel csp wl var val s2 = Some (Inr (res, s3))"
    and n: "res = OWO \<and> us4 = us \<and> s4 = s3 \<or> res \<noteq> OWO \<and> GAC fuel csp us s3 = Some (Inr (us4, s4))"
    and r: "GAC_vals fuel csp var vals us4 (restoreValues var val s4) = Some (Inr (us', s'))"
    by (rule GAC_vals_Cons_cases)
  have n': "res = OWO \<and> us4 = us \<and> s4 = s3 \<or> res \<noteq> OWO \<and> P us s3 us4 s4"
  proof (cases "res = OWO")
    case True
    with n show ?thesis by simp
  next
    case False
    with n have gg: "GAC fuel csp us s3 = Some (Inr (us4, s4))" by simp
    from "5.IH"(1) [OF refl c [symmetric] refl g refl refl False gg "5.prems"(2-5)] False
    show ?thesis by simp
  qed
  have n2: "(if res = OWO then Some (Inr (us, s3)) else GAC fuel csp us s3) = Some (Inr (us4, s4))"
    using n by auto
  have "Q var vals us4 (restoreValues var val s4) us' s'"
    by (rule "5.IH"(2) [OF refl c [symmetric] refl g refl refl n2 refl refl r "5.prems"(2-5)])
  with c g n' show ?case by (rule "5.prems"(5))
qed

lemma search_frame_selected [simp]:
  "search_frame U A (s\<lparr>selected := x\<rparr>) s' = search_frame U A s s'"
  by (simp add: search_frame_def avail_def logged_def)

lemma search_frame_sink: "search_frame U A s (place_and_check_result csp s)"
  by (rule search_frameI) (simp_all add: place_and_check_result_def avail_def logged_def)

lemma search_frame_unassign:
  assumes f: "search_frame U ({var} \<times> X) s s2" and U: "U \<subseteq> V" "var \<in> V"
  shows "search_frame V {} s (setValue var None s2)"
proof (rule search_frameI)
  fix k show "undoDict (setValue var None s2) k = undoDict s k \<or> undoDict (setValue var None s2) k = None"
    using search_frameD(1) [OF f, of k] by simp
next
  fix K v
  have "avail (setValue var None s2) K v = avail s2 K v" by (simp add: avail_def logged_def)
  then show "avail s K v \<subseteq> avail (setValue var None s2) K v"
    using search_frameD(2) [OF f, of K v] by simp
next
  fix v show "v_dom (vars (setValue var None s2) v) = v_dom (vars s v)"
    using search_frameD(3) [OF f] by simp
next
  fix v
  show "v_value (vars (setValue var None s2) v) = v_value (vars s v)
      \<or> (v \<in> V \<and> v_value (vars (setValue var None s2) v) = None)
      \<or> (\<exists>x. (v, x) \<in> {} \<and> v_value (vars (setValue var None s2) v) = Some x)"
    using search_frameD(4) [OF f, of v] U by (cases "v = var") (auto simp: setValue_value)
qed

lemma GAC_frame:
  "GAC fuel csp us s = Some (Inr (us', s')) \<Longrightarrow>
     search_frame (set us) {} s s' \<and> mset us' = mset us \<and> (within_domains s \<longrightarrow> within_domains s')"
  "GAC_vals fuel csp var vals us s = Some (Inr (us', s')) \<Longrightarrow>
     search_frame (set us) ({var} \<times> set vals) s s' \<and> mset us' = mset us \<and>
     (within_domains s \<longrightarrow> within_domains s')"
proof -
  let ?P = "\<lambda>us s us' s'. search_frame (set us) {} s s' \<and> mset us' = mset us \<and>
                 (within_domains s \<longrightarrow> within_domains s')"
  let ?Q = "\<lambda>var vals us s us' s'. search_frame (set us) ({var} \<times> set vals) s s' \<and>
                 mset us' = mset us \<and> (within_domains s \<longrightarrow> within_domains s')"
  have sink: "?P [] s [] (place_and_check_result csp s)" for s :: "'a state"
    by (simp add: search_frame_sink within_domains_sink)
  have nil: "?Q var [] us s us s" for var us and s :: "'a state"
    by (simp add: search_frame_refl)
  have pop: "?P (var # rest) s (us2 @ [var]) (setValue var None s2)"
    if "?Q var (curDomain (vars s var)) rest (s\<lparr>selected := selected s @ [(var, var # rest)]\<rparr>) us2 s2"
    for var rest us2 and s s2 :: "'a state"
  proof -
    from that have f: "search_frame (set rest) ({var} \<times> set (curDomain (vars s var))) s s2"
      and m: "mset us2 = mset rest" and w: "within_domains s \<longrightarrow> within_domains s2"
      by (simp_all add: within_domains_selected)
    have "search_frame (set (var # rest)) {} s (setValue var None s2)"
      by (rule search_frame_unassign [OF f]) auto
    with m w show ?thesis by (simp add: within_domains_setValue)
  qed
  have attempt: "?Q var (val # vals) us s us' s'"
    if c: "constraintsOf csp var (setValue var (Some val) s) = (Some wl, s2)"
      and ge: "GacEnforce fuel csp wl var val s2 = Some (Inr (res, s3))"
      and nn: "res = OWO \<and> us4 = us \<and> s4 = s3 \<or> res \<noteq> OWO \<and> ?P us s3 us4 s4"
      and r: "?Q var vals us4 (restoreValues var val s4) us' s'"
    for fuel var val vals us wl res us4 us' and s s2 s3 s4 s' :: "'a state"
  proof -
    have g: "gac_frame (var, val) s2 s3" by (rule GacEnforce_frame [OF ge])
    from nn have n: "search_frame (set us) {} s3 s4 \<and> mset us4 = mset us \<and>
        (within_domains s3 \<longrightarrow> within_domains s4)"
      by (auto simp: search_frame_refl)
    then have su: "set us4 = set us" by (metis set_mset_mset)
    have a: "search_frame (set us) {(var, val)} s (restoreValues var val s4)"
      using attempt_frame [OF c g] n by blast
    have "search_frame (set us) ({var} \<times> set (val # vals)) s s'"
      by (rule search_frame_trans [OF a]) (use r su in auto)
    moreover have "mset us' = mset us" using r n by simp
    moreover have "within_domains s \<longrightarrow> within_domains s'"
    proof
      assume "within_domains s"
      then have "within_domains s2"
        by (intro within_domains_constraintsOf [OF c] within_domains_setValue)
      then have "within_domains s3" by (rule GacEnforce_within [OF ge])
      with n have "within_domains s4" by simp
      then have "within_domains (restoreValues var val s4)" by (rule within_domains_restoreValues)
      with r show "within_domains s'" by simp
    qed
    ultimately show ?thesis by simp
  qed
  show "GAC fuel csp us s = Some (Inr (us', s')) \<Longrightarrow>
     search_frame (set us) {} s s' \<and> mset us' = mset us \<and> (within_domains s \<longrightarrow> within_domains s')"
    using sink nil pop attempt by (rule GAC_rule(1) [where P = ?P and Q = ?Q])
  show "GAC_vals fuel csp var vals us s = Some (Inr (us', s')) \<Longrightarrow>
     search_frame (set us) ({var} \<times> set vals) s s' \<and> mset us' = mset us \<and>
     (within_domains s \<longrightarrow> within_domains s')"
    using sink nil pop attempt by (rule GAC_rule(2) [where P = ?P and Q = ?Q])
qed

lemma csp_neq_init: "CSP_init ''g'' [0, 1] [c_neq] = Inr csp_neq"
  by (simp add: CSP_init_def csp_neq_def c_neq_def)

lemma GAC_selected:
  "GAC fuel csp us s = Some (Inr (us', s')) \<Longrightarrow>
     \<exists>new. selected s' = selected s @ new \<and> picks_head new \<and> (us \<noteq> [] \<longrightarrow> new \<noteq> [] \<and> hd new = (hd us, us))"
  "GAC_vals fuel csp var vals us s = Some (Inr (us', s')) \<Longrightarrow>
     \<exists>new. selected s' = selected s @ new \<and> picks_head new"
proof -
  let ?P = "\<lambda>us s us' s'. \<exists>new. selected s' = selected s @ new \<and> picks_head new \<and>
              (us \<noteq> [] \<longrightarrow> new \<noteq> [] \<and> hd new = (hd us, us))"
  let ?Q = "\<lambda>var vals us s us' s'. \<exists>new. selected s' = selected s @ new \<and> picks_head new"
  have sink: "?P [] s [] (place_and_check_result csp s)" for s :: "'a state"
    by (simp add: place_and_check_result_def picks_head_def)
  have nil: "?Q var [] us s us s" for var :: vid and us :: "vid list" and s :: "'a state"
    by (simp add: picks_head_def)
  have pop: "?P (var # rest) s (us2 @ [var]) (setValue var None s2)"
    if "?Q var (curDomain (vars s var)) rest (s\<lparr>selected := selected s @ [(var, var # rest)]\<rparr>) us2 s2"
    for var rest us2 and s s2 :: "'a state"
  proof -
    from that obtain new where "selected s2 = selected s @ (var, var # rest) # new" "picks_head new"
      by auto
    then have "selected (setValue var None s2) = selected s @ ((var, var # rest) # new)"
      "picks_head ((var, var # rest) # new)"
      by (simp_all add: picks_head_def)
    then show ?thesis by (intro exI [of _ "(var, var # rest) # new"]) simp
  qed
  have attempt: "?Q var (val # vals) us s us' s'"
    if c: "constraintsOf csp var (setValue var (Some val) s) = (Some wl, s2)"
      and ge: "GacEnforce fuel csp wl var val s2 = Some (Inr (res, s3))"
      and nn: "res = OWO \<and> us4 = us \<and> s4 = s3 \<or> res \<noteq> OWO \<and> ?P us s3 us4 s4"
      and r: "?Q var vals us4 (restoreValues var val s4) us' s'"
    for fuel var val vals us wl res us4 us' and s s2 s3 s4 s' :: "'a state"
  proof -
    have "selected s3 = selected s"
      using gac_frameD(7) [OF GacEnforce_frame [OF ge]] constraintsOf_state [OF c] by simp
    moreover from nn obtain n1 where "selected s4 = selected s3 @ n1" "picks_head n1"
      by (auto simp: picks_head_def)
    moreover from r obtain n2 where "selected s' = selected s4 @ n2" "picks_head n2"
      by auto
    ultimately have "selected s' = selected s @ (n1 @ n2)" "picks_head (n1 @ n2)"
      by (auto simp: picks_head_def)
    then show ?thesis by blast
  qed
  show "GAC fuel csp us s = Some (Inr (us', s')) \<Longrightarrow> ?P us s us' s'"
    using sink nil pop attempt by (rule GAC_rule(1) [where P = ?P and Q = ?Q])
  show "GAC_vals fuel csp var vals us s = Some (Inr (us', s')) \<Longrightarrow> ?Q var vals us s us' s'"
    using sink nil pop attempt by (rule GAC_rule(2) [where P = ?P and Q = ?Q])
qed

lemma returnsD: "returns r \<Longrightarrow> \<exists>us s. r = Some (Inr (us, s))"
  by (auto simp: returns_def split: option.splits sum.splits)

lemma initial_state_simps [simp]:
  "vars (initial_state h) = h" "undoDict (initial_state h) = Map.empty"
  "stdout (initial_state h) = []" "sink_calls (initial_state h) = []"
  "selected (initial_state h) = []"
  by (simp_all add: initial_state_def)

lemma inCurDomain_iff: "inCurDomain var x \<longleftrightarrow> x \<in> set (curDomain var)"
  by (auto simp: inCurDomain_def curDomain_def isAssigned_def getValue_def)

lemma table_others_eq:
  "i + length vs \<le> length t \<Longrightarrow>
   table_others s vindex t i vs =
     Inr (\<forall>j<length vs. i + j \<noteq> vindex \<longrightarrow> t ! (i + j) \<in> set (curDomain (vars s (vs ! j))))"
proof (induction vs arbitrary: i)
  case Nil
  then show ?case by simp
next
  case (Cons v vs)
  have split: "(\<forall>j<Suc (length vs). Q j) \<longleftrightarrow> Q 0 \<and> (\<forall>j<length vs. Q (Suc j))" for Q
    by (auto simp: less_Suc_eq_0_disj)
  from Cons.prems have "Suc i + length vs \<le> length t" "i < length t" by simp_all
  with Cons.IH [of "Suc i"] show ?case
    by (cases "i = vindex") (simp_all add: list_get_def inCurDomain_iff split)
qed

lemma table_tuples_eq:
  assumes "\<forall>t\<in>set sat. length t = length scp" "vindex < length scp"
  shows "table_tuples s scp vindex val sat =
     Inr (\<exists>t\<in>set sat. t ! vindex = val \<and>
            (\<forall>j<length scp. j \<noteq> vindex \<longrightarrow> t ! j \<in> set (curDomain (vars s (scp ! j)))))"
  using assms
proof (induction sat)
  case Nil
  then show ?case by simp
next
  case (Cons t sat)
  then have len: "length t = length scp" by simp
  have o: "table_others s vindex t 0 scp =
     Inr (\<forall>j<length scp. j \<noteq> vindex \<longrightarrow> t ! j \<in> set (curDomain (vars s (scp ! j))))"
    using table_others_eq [of 0 scp t s vindex] len by simp
  from Cons show ?case
    by (auto simp: list_get_def len o)
qed

lemma list_index_member:
  "var \<in> set scp \<Longrightarrow>
   \<exists>p. list_index scp var = Inr p \<and> p < length scp \<and> scp ! p = var \<and> (\<forall>j<p. scp ! j \<noteq> var)"
proof (induction scp)
  case Nil
  then show ?case by simp
next
  case (Cons a scp)
  show ?case
  proof (cases "a = var")
    case True
    then show ?thesis by simp
  next
    case False
    with Cons obtain p where p: "list_index scp var = Inr p" "p < length scp" "scp ! p = var"
      "\<forall>j<p. scp ! j \<noteq> var" by auto
    have "\<forall>j<Suc p. (a # scp) ! j \<noteq> var"
      using p(4) False by (auto simp: less_Suc_eq_0_disj)
    with p False show ?thesis by simp
  qed
qed

lemma first_position_unique:
  assumes "p < length scp" "scp ! p = var" "\<forall>j<p. scp ! j \<noteq> var"
    and "q < length scp" "scp ! q = var" "\<forall>j<q. scp ! j \<noteq> var"
  shows "p = (q::nat)"
proof (rule ccontr)
  assume "p \<noteq> q"
  then consider "p < q" | "q < p" by linarith
  then show False using assms by cases auto
qed

lemma table_hasSupport_eq:
  assumes len: "\<forall>t\<in>set sat. length t = length scp"
  shows "table_hasSupport s scp sat var val =
     Inr (var \<notin> set scp \<or>
       (\<exists>t\<in>set sat. \<exists>p<length scp. scp ! p = var \<and> (\<forall>j<p. scp ! j \<noteq> var) \<and> t ! p = val \<and>
          (\<forall>j<length scp. j \<noteq> p \<longrightarrow> t ! j \<in> set (curDomain (vars s (scp ! j))))))"
proof (cases "var \<in> set scp")
  case False
  then show ?thesis by (simp add: table_hasSupport_def)
next
  case True
  from list_index_member [OF True] obtain p where p: "list_index scp var = Inr p" "p < length scp"
    "scp ! p = var" "\<forall>j<p. scp ! j \<noteq> var" by auto
  have "(\<exists>t\<in>set sat. t ! p = val \<and>
            (\<forall>j<length scp. j \<noteq> p \<longrightarrow> t ! j \<in> set (curDomain (vars s (scp ! j))))) \<longleftrightarrow>
        (\<exists>t\<in>set sat. \<exists>q<length scp. scp ! q = var \<and> (\<forall>j<q. scp ! j \<noteq> var) \<and> t ! q = val \<and>
          (\<forall>j<length scp. j \<noteq> q \<longrightarrow> t ! j \<in> set (curDomain (vars s (scp ! j)))))"
    (is "?L \<longleftrightarrow> ?R")
  proof
    assume ?L then show ?R using p by blast
  next
    assume ?R
    then obtain t q where t: "t \<in> set sat" and q: "q < length scp" "scp ! q = var" "\<forall>j<q. scp ! j \<noteq> var"
      and r: "t ! q = val" "\<forall>j<length scp. j \<noteq> q \<longrightarrow> t ! j \<in> set (curDomain (vars s (scp ! j)))"
      by blast
    have "q = p" using first_position_unique [OF q p(2-4)] .
    with t r show ?L by blast
  qed
  with True p table_tuples_eq [OF len p(2), of s val] show ?thesis
    by (simp add: table_hasSupport_def)
qed

declare findvals_internal.simps [simp del]

lemma valsOK_prefix:
  assumes "valsOK n req lo up (l @ l')"
  shows "valsOK n req lo up l"
proof -
  define a where "a = int (length (filter (\<lambda>v. v \<in> set req) (map snd l)))"
  define b where "b = int (length (filter (\<lambda>v. v \<in> set req) (map snd l')))"
  define c where "c = int (length l)"
  define d where "d = int (length l')"
  have bd: "b \<le> d"
    unfolding b_def d_def using length_filter_le [of "\<lambda>v. v \<in> set req" "map snd l'"] by simp
  have 1: "valsOK n req lo up (l @ l') = (lo \<le> a + b + int n - (c + d) \<and> a + b \<le> up)"
    by (simp add: valsOK_def Let_def a_def b_def c_def d_def)
  have 2: "valsOK n req lo up l = (lo \<le> a + int n - c \<and> a \<le> up)"
    by (simp add: valsOK_def Let_def a_def c_def)
  have "0 \<le> b" by (simp add: b_def)
  with assms bd show ?thesis unfolding 1 2 by linarith
qed

lemma valsOK_complete:
  "length l = n \<Longrightarrow>
   valsOK n req lo up l \<longleftrightarrow>
     lo \<le> int (length (filter (\<lambda>v. v \<in> set req) (map snd l))) \<and>
     int (length (filter (\<lambda>v. v \<in> set req) (map snd l))) \<le> up"
  by (auto simp: valsOK_def Let_def)

lemma bex_Cons: "(\<exists>x\<in>set (a # l). G x) = (G a \<or> (\<exists>x\<in>set l. G x))"
  by simp

lemma disj_drop_left: "\<not> A \<Longrightarrow> (A \<or> B) = B"
  by blast

lemma disj_holds_left: "A \<Longrightarrow> (A \<or> B) = True"
  by blast

lemma findvals_internal_eq:
  "\<forall>l l'. F (l @ l') \<longrightarrow> Pt l \<Longrightarrow>
   findvals_internal s rv asg F Pt =
     (\<exists>xs. list_all2 (\<lambda>v x. x \<in> set (curDomain (vars s v))) (rev rv) xs \<and> F (asg @ zip (rev rv) xs))"
  "\<forall>l l'. F (l @ l') \<longrightarrow> Pt l \<Longrightarrow>
   findvals_for s rv var vals asg F Pt =
     (\<exists>val\<in>set vals. \<exists>xs. list_all2 (\<lambda>v x. x \<in> set (curDomain (vars s v))) (rev rv) xs \<and>
        F (asg @ (var, val) # zip (rev rv) xs))"
proof (induction s rv asg F Pt and s rv var vals asg F Pt rule: findvals_internal_findvals_for.induct)
  case (1 s remainingVars assignment finalTestfn partialTestfn)
  let ?R = "\<lambda>v x. x \<in> set (curDomain (vars s v))"
  show ?case
  proof (cases "remainingVars = []")
    case True
    then show ?thesis by (simp add: findvals_internal.simps)
  next
    case False
    then have rv: "rev remainingVars = last remainingVars # rev (butlast remainingVars)"
      by (metis append_butlast_last_id rev.simps(2) rev_append rev_rev_ident)
    from False have ih: "findvals_for s (butlast remainingVars) (last remainingVars)
        (curDomain (vars s (last remainingVars))) assignment finalTestfn partialTestfn =
      (\<exists>val\<in>set (curDomain (vars s (last remainingVars))). \<exists>xs.
          list_all2 ?R (rev (butlast remainingVars)) xs \<and>
          finalTestfn (assignment @ (last remainingVars, val) # zip (rev (butlast remainingVars)) xs))"
      using "1.IH" "1.prems" by simp
    have "findvals_internal s remainingVars assignment finalTestfn partialTestfn =
        findvals_for s (butlast remainingVars) (last remainingVars)
          (curDomain (vars s (last remainingVars))) assignment finalTestfn partialTestfn"
      using False by (simp add: findvals_internal.simps)
    also note ih
    also have "(\<exists>val\<in>set (curDomain (vars s (last remainingVars))). \<exists>xs.
          list_all2 ?R (rev (butlast remainingVars)) xs \<and>
          finalTestfn (assignment @ (last remainingVars, val) # zip (rev (butlast remainingVars)) xs)) =
        (\<exists>xs. list_all2 ?R (rev remainingVars) xs \<and>
          finalTestfn (assignment @ zip (rev remainingVars) xs))" (is "?L = ?Rhs")
    proof
      assume ?L
      then obtain val xs where "val \<in> set (curDomain (vars s (last remainingVars)))"
        "list_all2 ?R (rev (butlast remainingVars)) xs"
        "finalTestfn (assignment @ (last remainingVars, val) # zip (rev (butlast remainingVars)) xs)"
        by blast
      then have "list_all2 ?R (rev remainingVars) (val # xs) \<and>
          finalTestfn (assignment @ zip (rev remainingVars) (val # xs))"
        by (simp add: rv)
      then show ?Rhs by blast
    next
      assume ?Rhs
      then obtain ys where ys: "list_all2 ?R (rev remainingVars) ys"
        "finalTestfn (assignment @ zip (rev remainingVars) ys)" by blast
      from ys(1) obtain val xs where "ys = val # xs" by (cases ys) (simp_all add: rv)
      with ys show ?L by (auto simp: rv)
    qed
    finally show ?thesis .
  qed
next
  case (2 s remainingVars var assignment finalTestfn partialTestfn)
  then show ?case by simp
next
  case (3 s remainingVars var val vals assignment finalTestfn partialTestfn)
  let ?R = "\<lambda>v x. x \<in> set (curDomain (vars s v))"
  let ?here = "\<exists>xs. list_all2 ?R (rev remainingVars) xs \<and>
        finalTestfn (assignment @ (var, val) # zip (rev remainingVars) xs)"
  let ?rest = "\<exists>val\<in>set vals. \<exists>xs. list_all2 ?R (rev remainingVars) xs \<and>
        finalTestfn (assignment @ (var, val) # zip (rev remainingVars) xs)"
  have goal: "findvals_for s remainingVars var (val # vals) assignment finalTestfn partialTestfn
      = (?here \<or> ?rest)"
  proof (cases "partialTestfn (assignment @ [(var, val)])")
    case True
    have fi: "findvals_internal s remainingVars (assignment @ [(var, val)]) finalTestfn partialTestfn
        = ?here"
      using "3.IH"(1) [OF True "3.prems"] by simp
    show ?thesis
    proof (cases ?here)
      case h: True
      then have e3: "(?here \<or> ?rest) = True" by (rule disj_holds_left)
      have e1: "findvals_for s remainingVars var (val # vals) assignment finalTestfn partialTestfn = True"
        using True fi h by simp
      from e1 e3 show ?thesis by (simp only:)
    next
      case h: False
      with fi have nf: "\<not> findvals_internal s remainingVars (assignment @ [(var, val)]) finalTestfn partialTestfn"
        by simp
      have e1: "findvals_for s remainingVars var (val # vals) assignment finalTestfn partialTestfn =
          findvals_for s remainingVars var vals assignment finalTestfn partialTestfn"
        using True nf by simp
      have e2: "findvals_for s remainingVars var vals assignment finalTestfn partialTestfn = ?rest"
        by (rule "3.IH"(2) [OF True nf "3.prems"])
      from h have e3: "(?here \<or> ?rest) = ?rest" by (rule disj_drop_left)
      from e1 e2 e3 show ?thesis by (simp only:)
    qed
  next
    case False
    have "\<not> ?here"
    proof
      assume ?here
      then obtain xs where "finalTestfn ((assignment @ [(var, val)]) @ zip (rev remainingVars) xs)"
        by auto
      then have "partialTestfn (assignment @ [(var, val)])" using "3.prems" by blast
      with False show False by simp
    qed
    then have e3: "(?here \<or> ?rest) = ?rest" by (rule disj_drop_left)
    have e1: "findvals_for s remainingVars var (val # vals) assignment finalTestfn partialTestfn =
        findvals_for s remainingVars var vals assignment finalTestfn partialTestfn"
      using False by simp
    have e2: "findvals_for s remainingVars var vals assignment finalTestfn partialTestfn = ?rest"
      by (rule "3.IH"(3) [OF False "3.prems"])
    from e1 e2 e3 show ?thesis by (simp only:)
  qed
  show ?case by (subst bex_Cons) (rule goal)
qed

lemma count_required_mset:
  "length (filter P xs) = size (filter_mset P (mset xs))"
  by (simp flip: mset_filter)

lemma support_reorder:
  assumes "mset ws = mset rest"
  shows "(\<exists>xs. list_all2 R ws xs \<and> Q (mset xs)) = (\<exists>ys. list_all2 R rest ys \<and> Q (mset ys))"
proof
  assume "\<exists>xs. list_all2 R ws xs \<and> Q (mset xs)"
  then obtain xs where "list_all2 R ws xs" "Q (mset xs)" by blast
  with list_all2_reorder_left_invariance [of R ws xs rest] assms
  show "\<exists>ys. list_all2 R rest ys \<and> Q (mset ys)" by auto
next
  assume "\<exists>ys. list_all2 R rest ys \<and> Q (mset ys)"
  then obtain ys where "list_all2 R rest ys" "Q (mset ys)" by blast
  with list_all2_reorder_left_invariance [of R rest ys ws] assms
  show "\<exists>xs. list_all2 R ws xs \<and> Q (mset xs)" by auto
qed

lemma findvals_internal_valsOK:
  assumes var: "var \<in> set scp" and m: "mset rv = mset (remove1 var scp)"
    and sound: "\<forall>l l'. valsOK (length scp) req lo up (l @ l') \<longrightarrow> Pt l"
  shows "findvals_internal s rv [(var, val)] (valsOK (length scp) req lo up) Pt =
     (\<exists>xs. list_all2 (\<lambda>v x. x \<in> set (curDomain (vars s v))) (remove1 var scp) xs \<and>
        lo \<le> int (length (filter (\<lambda>x. x \<in> set req) (val # xs))) \<and>
        int (length (filter (\<lambda>x. x \<in> set req) (val # xs))) \<le> up)"
proof -
  let ?R = "\<lambda>v x. x \<in> set (curDomain (vars s v))"
  let ?Q = "\<lambda>M. lo \<le> int (size (filter_mset (\<lambda>x. x \<in> set req) (add_mset val M))) \<and>
                int (size (filter_mset (\<lambda>x. x \<in> set req) (add_mset val M))) \<le> up"
  have "length rv = length (remove1 var scp)" using m by (rule mset_eq_length)
  moreover have "length (remove1 var scp) = length scp - 1" using var by (simp add: length_remove1)
  moreover have "0 < length scp" using var by (rule length_pos_if_in_set)
  ultimately have len: "Suc (length rv) = length scp" by simp
  have "findvals_internal s rv [(var, val)] (valsOK (length scp) req lo up) Pt =
      (\<exists>xs. list_all2 ?R (rev rv) xs \<and> valsOK (length scp) req lo up ([(var, val)] @ zip (rev rv) xs))"
    by (rule findvals_internal_eq(1)) (rule sound)
  also have "\<dots> = (\<exists>xs. list_all2 ?R (rev rv) xs \<and> ?Q (mset xs))"
  proof -
    have "valsOK (length scp) req lo up ([(var, val)] @ zip (rev rv) xs) = ?Q (mset xs)"
      if "list_all2 ?R (rev rv) xs" for xs
    proof -
      from that have l: "length xs = length rv" by (auto dest: list_all2_lengthD)
      then have "length ([(var, val)] @ zip (rev rv) xs) = length scp" using len by simp
      from valsOK_complete [OF this] l show ?thesis
        by (simp add: count_required_mset [symmetric])
    qed
    then show ?thesis by blast
  qed
  also have "\<dots> = (\<exists>ys. list_all2 ?R (remove1 var scp) ys \<and> ?Q (mset ys))"
    by (rule support_reorder) (simp add: m)
  also have "\<dots> = (\<exists>xs. list_all2 ?R (remove1 var scp) xs \<and>
        lo \<le> int (length (filter (\<lambda>x. x \<in> set req) (val # xs))) \<and>
        int (length (filter (\<lambda>x. x \<in> set req) (val # xs))) \<le> up)"
    unfolding count_required_mset by (simp only: mset.simps)
  finally show ?thesis .
qed

lemma csp_inits:
  "CSP_init ''unary'' [0] [c_only2] = Inr csp_unary"
  "CSP_init ''g'' [0, 1] [c_one] = Inr csp_one"
  "CSP_init ''g'' [0, 1] [c_neq] = Inr csp_neq"
  "CSP_init ''free'' [0, 1, 2] [] = Inr csp_free"
  by (simp_all add: CSP_init_def csp_unary_def c_only2_def csp_one_def c_one_def csp_neq_def c_neq_def csp_free_def)


















section \<open>The claims\<close>

text \<open>
  Claim C1 (support in a table constraint). Let every stored tuple have the length of
  the scope. \<^verbatim>\<open>hasSupport(var, val)\<close> returns true when \<open>var\<close> is not in the scope.
  Otherwise, with \<open>p\<close> the first position of \<open>var\<close> in the scope, it returns true if and
  only if some stored tuple has \<open>val\<close> at \<open>p\<close> and, at every other position, a value of
  the current domain of the scope variable there; nothing is asked of \<open>val\<close> itself.
  The answer is the same for every list that holds the same tuples, in any order.
\<close>

theorem table_support:
  assumes len: "\<forall>t\<in>set sat. length t = length scp"
  shows "hasSupport s (TableConstraint i nm scp sat) var val =
     Inr (var \<notin> set scp \<or>
       (\<exists>t\<in>set sat. \<exists>p<length scp. scp ! p = var \<and> (\<forall>j<p. scp ! j \<noteq> var) \<and> t ! p = val \<and>
          (\<forall>j<length scp. j \<noteq> p \<longrightarrow> t ! j \<in> set (curDomain (vars s (scp ! j)))))) \<and>
     (\<forall>sat'. set sat' = set sat \<longrightarrow>
        hasSupport s (TableConstraint i nm scp sat') var val =
        hasSupport s (TableConstraint i nm scp sat) var val)"
proof -
  have "hasSupport s (TableConstraint i nm scp sat') var val =
        hasSupport s (TableConstraint i nm scp sat) var val" if "set sat' = set sat" for sat'
  proof -
    from that len have "\<forall>t\<in>set sat'. length t = length scp" by simp
    from table_hasSupport_eq [OF this] table_hasSupport_eq [OF len] that show ?thesis by simp
  qed
  with table_hasSupport_eq [OF len] show ?thesis by simp
qed

text \<open>
  C1 on the constraint that A and B differ: A = 1 has the support 1, 2, found as well
  when the tuples are stored in the other order.
\<close>

theorem table_support_witness:
  "hasSupport (initial_state heapAB) c_neq 0 1 = Inr True \<and>
   (\<exists>t\<in>set [[1, 2], [2, 1::int]]. \<exists>p<length [0, 1::nat]. [0, 1] ! p = (0::nat) \<and>
      (\<forall>j<p. [0, 1] ! j \<noteq> (0::nat)) \<and> t ! p = 1 \<and>
      (\<forall>j<length [0, 1::nat]. j \<noteq> p \<longrightarrow>
         t ! j \<in> set (curDomain (vars (initial_state heapAB) ([0, 1] ! j))))) \<and>
   hasSupport (initial_state heapAB) (TableConstraint 0 ''neq'' [0, 1] [[2, 1], [1, 2]]) 0 1 = Inr True"
proof -
  let ?B = "\<exists>t\<in>set [[1, 2], [2, 1::int]]. \<exists>p<length [0, 1::nat]. [0, 1] ! p = (0::nat) \<and>
      (\<forall>j<p. [0, 1] ! j \<noteq> (0::nat)) \<and> t ! p = 1 \<and>
      (\<forall>j<length [0, 1::nat]. j \<noteq> p \<longrightarrow>
         t ! j \<in> set (curDomain (vars (initial_state heapAB) ([0, 1] ! j))))"
  have len: "\<forall>t\<in>set [[1, 2], [2, 1::int]]. length t = length [0, 1::nat]" by simp
  note th = table_support [OF len, of "initial_state heapAB" 0 "''neq''" 0 1]
  have e: "hasSupport (initial_state heapAB) (TableConstraint 0 ''neq'' [0, 1] [[1, 2], [2, 1]]) 0 1 = Inr True"
    by code_simp
  from th have "hasSupport (initial_state heapAB) (TableConstraint 0 ''neq'' [0, 1] [[1, 2], [2, 1]]) 0 1 =
      Inr ((0::nat) \<notin> set [0, 1] \<or> ?B)"
    by (rule conjunct1)
  with e have "(Inr ((0::nat) \<notin> set [0, 1] \<or> ?B) :: error + bool) = Inr True" by (simp only:)
  then have "(0::nat) \<notin> set [0, 1] \<or> ?B" by (simp only: sum.inject eq_True)
  moreover have "(0::nat) \<in> set [0, 1]" by simp
  ultimately have b: ?B by blast
  from th have "\<forall>sat'. set sat' = set [[1, 2], [2, 1::int]] \<longrightarrow>
      hasSupport (initial_state heapAB) (TableConstraint 0 ''neq'' [0, 1] sat') 0 1 =
      hasSupport (initial_state heapAB) (TableConstraint 0 ''neq'' [0, 1] [[1, 2], [2, 1]]) 0 1"
    by (rule conjunct2)
  then have "set [[2, 1], [1, 2::int]] = set [[1, 2], [2, 1::int]] \<longrightarrow>
      hasSupport (initial_state heapAB) (TableConstraint 0 ''neq'' [0, 1] [[2, 1], [1, 2]]) 0 1 =
      hasSupport (initial_state heapAB) (TableConstraint 0 ''neq'' [0, 1] [[1, 2], [2, 1]]) 0 1"
    by (rule spec)
  moreover have "set [[2, 1], [1, 2::int]] = set [[1, 2], [2, 1]]" by auto
  ultimately have "hasSupport (initial_state heapAB) (TableConstraint 0 ''neq'' [0, 1] [[2, 1], [1, 2]]) 0 1 =
      hasSupport (initial_state heapAB) (TableConstraint 0 ''neq'' [0, 1] [[1, 2], [2, 1]]) 0 1"
    by (rule mp)
  with e have c: "hasSupport (initial_state heapAB) (TableConstraint 0 ''neq'' [0, 1] [[2, 1], [1, 2]]) 0 1 = Inr True"
    by (simp only:)
  from e have "hasSupport (initial_state heapAB) c_neq 0 1 = Inr True" by (simp only: c_neq_def)
  with b c show ?thesis by (intro conjI)
qed



text \<open>
  Claim C3 (enumeration), at a failing input. For the variable A with the domain 1, 2
  and one constraint over A alone that allows only the value 2, the search calls the
  solution sink twice: on A = 1, which the constraint's own \<^verbatim>\<open>check\<close> rejects, and on
  A = 2. \<^verbatim>\<open>GacEnforce\<close> prunes 1 from A, but A is assigned, so \<^verbatim>\<open>curDomainSize\<close> is 1 and
  no wipeout is seen. The two examples of the claim come out as it says: two calls for
  the variables that must differ, one call when both must be 1.
\<close>

theorem sink_on_violated_constraint:
  "sink_of (GAC 5 csp_unary [0] (initial_state heapAB)) = Some [[(0, Some 1)], [(0, Some 2)]] \<and>
   \<not> table_check (setValue 0 (Some 1) (initial_state heapAB)) c_only2 \<and>
   table_check (setValue 0 (Some 2) (initial_state heapAB)) c_only2 \<and>
   sink_of (GAC 5 csp_neq [0, 1] (initial_state heapAB)) =
     Some [[(0, Some 1), (1, Some 2)], [(0, Some 2), (1, Some 1)]] \<and>
   sink_of (GAC 5 csp_one [0, 1] (initial_state heapAB)) = Some [[(0, Some 1), (1, Some 1)]]"
  by code_simp






text \<open>
  Claim C6 (support in a cardinality constraint). \<^verbatim>\<open>hasSupport(var, val)\<close> returns true
  when \<open>var\<close> is not in the scope. Otherwise it returns true if and only if the other
  scope variables (the scope without the first occurrence of \<open>var\<close>) can each be given
  a value of its current domain so that the number of values in \<^verbatim>\<open>required_values\<close>,
  counting \<open>val\<close>, is at least the lower and at most the upper bound. The answer is the
  one of the search without the test of partial assignments, and the one of the search
  over the other variables in any order.
\<close>

theorem nvalues_support:
  "hasSupport s (NValuesConstraint i nm scp req lo up) var val =
     Inr (var \<notin> set scp \<or>
       (\<exists>xs. list_all2 (\<lambda>v x. x \<in> set (curDomain (vars s v))) (remove1 var scp) xs \<and>
          lo \<le> int (length (filter (\<lambda>x. x \<in> set req) (val # xs))) \<and>
          int (length (filter (\<lambda>x. x \<in> set req) (val # xs))) \<le> up)) \<and>
   (var \<in> set scp \<longrightarrow>
      hasSupport s (NValuesConstraint i nm scp req lo up) var val =
        Inr (findvals s (remove1 var scp) [(var, val)] (valsOK (length scp) req lo up) (\<lambda>l. True)) \<and>
      (\<forall>rv. mset rv = mset (remove1 var scp) \<longrightarrow>
         hasSupport s (NValuesConstraint i nm scp req lo up) var val =
           Inr (findvals_internal s rv [(var, val)] (valsOK (length scp) req lo up)
                  (valsOK (length scp) req lo up))))"
proof (cases "var \<in> set scp")
  case False
  then show ?thesis by (simp add: nvalues_hasSupport_def)
next
  case True
  let ?sorted = "rev (sort_key (\<lambda>v. curDomainSize (vars s v)) (rev (remove1 var scp)))"
  let ?ex = "\<exists>xs. list_all2 (\<lambda>v x. x \<in> set (curDomain (vars s v))) (remove1 var scp) xs \<and>
          lo \<le> int (length (filter (\<lambda>x. x \<in> set req) (val # xs))) \<and>
          int (length (filter (\<lambda>x. x \<in> set req) (val # xs))) \<le> up"
  have ms: "mset ?sorted = mset (remove1 var scp)" by simp
  have a: "findvals_internal s rv [(var, val)] (valsOK (length scp) req lo up)
      (valsOK (length scp) req lo up) = ?ex" if "mset rv = mset (remove1 var scp)" for rv
    using True that by (rule findvals_internal_valsOK) (intro allI impI, erule valsOK_prefix)
  have b: "findvals_internal s ?sorted [(var, val)] (valsOK (length scp) req lo up) (\<lambda>l. True) = ?ex"
    using True ms by (rule findvals_internal_valsOK) simp
  from a [OF ms] have h: "hasSupport s (NValuesConstraint i nm scp req lo up) var val = Inr ?ex"
    using True by (simp add: nvalues_hasSupport_def findvals_def)
  from h True have c1: "hasSupport s (NValuesConstraint i nm scp req lo up) var val =
      Inr (var \<notin> set scp \<or> ?ex)"
    by (simp only: simp_thms)
  from h b have c2: "hasSupport s (NValuesConstraint i nm scp req lo up) var val =
      Inr (findvals s (remove1 var scp) [(var, val)] (valsOK (length scp) req lo up) (\<lambda>l. True))"
    by (simp only: findvals_def)
  have c3: "\<forall>rv. mset rv = mset (remove1 var scp) \<longrightarrow>
      hasSupport s (NValuesConstraint i nm scp req lo up) var val =
        Inr (findvals_internal s rv [(var, val)] (valsOK (length scp) req lo up)
               (valsOK (length scp) req lo up))"
  proof (intro allI impI)
    fix rv assume "mset rv = mset (remove1 var scp)"
    from a [OF this] h
    show "hasSupport s (NValuesConstraint i nm scp req lo up) var val =
        Inr (findvals_internal s rv [(var, val)] (valsOK (length scp) req lo up)
               (valsOK (length scp) req lo up))"
      by (simp only:)
  qed
  show ?thesis by (intro conjI impI) (rule c1 c2 c3)+
qed

text \<open>
  C6 on three variables of which exactly three must have the value 1: A = 1 has a
  support and A = 2 has none.
\<close>

theorem nvalues_support_witness:
  "hasSupport (initial_state heapABC) c_three 0 1 = Inr True \<and>
   (\<exists>xs. list_all2 (\<lambda>v x. x \<in> set (curDomain (vars (initial_state heapABC) v))) (remove1 0 [0, 1, 2]) xs \<and>
      3 \<le> int (length (filter (\<lambda>x. x \<in> set [1::int]) (1 # xs))) \<and>
      int (length (filter (\<lambda>x. x \<in> set [1::int]) (1 # xs))) \<le> 3) \<and>
   hasSupport (initial_state heapABC) c_three 0 2 = Inr False"
proof -
  let ?ex = "\<exists>xs. list_all2 (\<lambda>v x. x \<in> set (curDomain (vars (initial_state heapABC) v))) (remove1 0 [0, 1, 2]) xs \<and>
      3 \<le> int (length (filter (\<lambda>x. x \<in> set [1::int]) (1 # xs))) \<and>
      int (length (filter (\<lambda>x. x \<in> set [1::int]) (1 # xs))) \<le> 3"
  have e1: "hasSupport (initial_state heapABC) (NValuesConstraint 1 ''three'' [0, 1, 2] [1] 3 3) 0 1 = Inr True"
    by code_simp
  have e2: "hasSupport (initial_state heapABC) (NValuesConstraint 1 ''three'' [0, 1, 2] [1] 3 3) 0 2 = Inr False"
    by code_simp
  from nvalues_support [of "initial_state heapABC" 1 "''three''" "[0, 1, 2]" "[1]" 3 3 0 1]
  have "hasSupport (initial_state heapABC) (NValuesConstraint 1 ''three'' [0, 1, 2] [1] 3 3) 0 1 =
      Inr ((0::nat) \<notin> set [0, 1, 2] \<or> ?ex)"
    by (rule conjunct1)
  with e1 have "(Inr ((0::nat) \<notin> set [0, 1, 2] \<or> ?ex) :: error + bool) = Inr True" by (simp only:)
  then have "(0::nat) \<notin> set [0, 1, 2] \<or> ?ex" by (simp only: sum.inject eq_True)
  moreover have "(0::nat) \<in> set [0, 1, 2]" by simp
  ultimately have b: ?ex by blast
  from e1 e2 b show ?thesis by (simp only: c_three_def simp_thms)
qed

text \<open>
  Claim C7 (idempotence), at a failing input. With A assigned 1 and the constraint over
  A alone that allows only 2, \<^verbatim>\<open>GacEnforce\<close> returns success after pruning 1 from A. Run
  again at once with the same worklist, it finds A = 1 without support again and
  prunes it again: \<^verbatim>\<open>pruneValue\<close> prints that the value is not present, and the pair is
  logged a second time under the reason key. The current domain of A stays the list 2
  and the result is success.
\<close>

theorem second_run_prunes_again:
  "second_run 5 csp_unary [c_only2] 0 1 (setValue 0 (Some 1) (initial_state heapAB)) =
     Some (OK, Some [(0, 1)], Some [(0, 1), (0, 1)], [], [PruneError 1 ''A''], [2])"
  by code_simp

text \<open>
  Claim C8, as amended. \<^verbatim>\<open>pruneValue\<close> deletes the first occurrence of the value from the
  current domain of the variable and appends the pair of the variable and the value to
  the entry of the reason key in the undo dictionary, which it creates when there is
  none. When the value is not in the current domain, it prints a line, leaves every
  variable as it is, appends the pair all the same and returns as in the other case.
\<close>

theorem pruneValue_effect:
  "v_curdom (vars (pruneValue v x rv rx s) v) = remove1 x (v_curdom (vars s v)) \<and>
   undoDict (pruneValue v x rv rx s) =
     (undoDict s)((rv, rx) \<mapsto> (case undoDict s (rv, rx) of None \<Rightarrow> [] | Some es \<Rightarrow> es) @ [(v, x)]) \<and>
   stdout (pruneValue v x rv rx s) =
     stdout s @ (if x \<in> set (v_curdom (vars s v)) then [] else [PruneError x (v_name (vars s v))]) \<and>
   (x \<notin> set (v_curdom (vars s v)) \<longrightarrow> vars (pruneValue v x rv rx s) = vars s) \<and>
   (\<forall>u. u \<noteq> v \<longrightarrow> vars (pruneValue v x rv rx s) u = vars s u) \<and>
   v_dom (vars (pruneValue v x rv rx s) v) = v_dom (vars s v) \<and>
   v_value (vars (pruneValue v x rv rx s) v) = v_value (vars s v)"
  by (simp add: pruneValue_curdom pruneValue_undoDict pruneValue_stdout)
     (simp add: pruneValue_def list_remove_def Let_def)

text \<open>
The amended C8 at a value that is in the current domain of A and at one that is not.
\<close>

theorem pruneValue_effect_witness:
  "v_curdom (vars (pruneValue 0 2 1 1 (initial_state heapAB)) 0) = [1] \<and>
   undoDict (pruneValue 0 2 1 1 (initial_state heapAB)) (1, 1) = Some [(0, 2)] \<and>
   stdout (pruneValue 0 2 1 1 (initial_state heapAB)) = [] \<and>
   vars (pruneValue 0 3 1 1 (initial_state heapAB)) = vars (initial_state heapAB) \<and>
   vars (pruneValue 0 2 1 1 (initial_state heapAB)) 1 = vars (initial_state heapAB) 1"
  using pruneValue_effect [of 0 2 1 1 "initial_state heapAB"]
    pruneValue_effect [of 0 3 1 1 "initial_state heapAB"]
  by (simp add: heapAB_def Variable_init_def)

text \<open>
  C8 as it is stated fails: pruning the value 3, which is not in the current domain of
  A, does not stop the program. The call returns a state, with one more printed line
  and with the pair logged under the reason key.
\<close>

theorem pruneValue_absent_counterexample:
  "3 \<notin> set (v_curdom (vars (initial_state heapAB) 0)) \<and>
   stdout (pruneValue 0 3 1 1 (initial_state heapAB)) = [PruneError 3 ''A''] \<and>
   v_curdom (vars (pruneValue 0 3 1 1 (initial_state heapAB)) 0) = [1, 2] \<and>
   undoDict (pruneValue 0 3 1 1 (initial_state heapAB)) (1, 1) = Some [(0, 3)]"
  by (simp add: pruneValue_def list_remove_def Let_def heapAB_def Variable_init_def)

text \<open>
  Claim C9, as amended. When the value is neither \<^verbatim>\<open>None\<close> nor a value of the original
  domain, \<^verbatim>\<open>setValue\<close> prints a line and returns with every variable as it was;
  otherwise it sets the assigned value of the variable, prints nothing and changes no
  other field and no other variable. The undo dictionary is never touched.
\<close>

theorem setValue_effect:
  "(x \<noteq> None \<and> the x \<notin> set (v_dom (vars s v)) \<longrightarrow>
      vars (setValue v x s) = vars s \<and>
      stdout (setValue v x s) = stdout s @ [AssignError (the x) (v_name (vars s v))]) \<and>
   (x = None \<or> the x \<in> set (v_dom (vars s v)) \<longrightarrow>
      v_value (vars (setValue v x s) v) = x \<and> stdout (setValue v x s) = stdout s \<and>
      v_dom (vars (setValue v x s) v) = v_dom (vars s v) \<and>
      v_curdom (vars (setValue v x s) v) = v_curdom (vars s v) \<and>
      (\<forall>u. u \<noteq> v \<longrightarrow> vars (setValue v x s) u = vars s u)) \<and>
   undoDict (setValue v x s) = undoDict s"
  by (auto simp: setValue_def Let_def)

text \<open>
The amended C9 at a value outside the domain of A, at one inside, and at \<^verbatim>\<open>None\<close>.
\<close>

theorem setValue_effect_witness:
  "vars (setValue 0 (Some 3) (initial_state heapAB)) = vars (initial_state heapAB) \<and>
   stdout (setValue 0 (Some 3) (initial_state heapAB)) = [AssignError 3 ''A''] \<and>
   v_value (vars (setValue 0 (Some 2) (initial_state heapAB)) 0) = Some 2 \<and>
   v_value (vars (setValue 0 None (setValue 0 (Some 2) (initial_state heapAB))) 0) = None"
  using setValue_effect [of "Some 3" "initial_state heapAB" 0]
    setValue_effect [of "Some 2" "initial_state heapAB" 0]
    setValue_effect [of None "setValue 0 (Some 2) (initial_state heapAB)" 0]
  by (simp add: heapAB_def Variable_init_def)

text \<open>
  C9 as it is stated fails: assigning 3 to A, whose domain is 1, 2, raises nothing. The
  call returns, and a search whose variable A has the value 7 in its current domain but
  not in its original domain goes on after the refused assignment and reaches the
  solution sink with A unassigned.
\<close>

theorem setValue_invalid_counterexample:
  "3 \<notin> set (v_dom (vars (initial_state heapAB) 0)) \<and>
   stdout (setValue 0 (Some 3) (initial_state heapAB)) = [AssignError 3 ''A''] \<and>
   v_value (vars (setValue 0 (Some 3) (initial_state heapAB)) 0) = None \<and>
   sink_of (GAC 5 csp_free [0] (initial_state (heapABC(0 := (heapABC 0)\<lparr>v_curdom := [7]\<rparr>)))) = Some [[(0, None), (1, None), (2, None)]]"
  by code_simp

text \<open>
  Claim C10, as amended. At every decision point \<^verbatim>\<open>GAC\<close> selects the head of the list
  \<^verbatim>\<open>unAssignedVars\<close> as it is then. When the values of the selected variable are
  exhausted, the variable is unassigned and appended at the end of the list, behind
  the other variables of the pool, before the call returns.
\<close>

theorem selection_takes_head:
  assumes run: "GAC fuel csp (var # rest) s = Some (Inr (us', s'))"
  shows "(\<exists>new. selected s' = selected s @ (var, var # rest) # new \<and>
            (\<forall>(v, pool) \<in> set new. pool \<noteq> [] \<and> v = hd pool)) \<and>
         (\<exists>rest'. us' = rest' @ [var] \<and> mset rest' = mset rest) \<and>
         v_value (vars s' var) = None"
proof -
  from GAC_selected(1) [OF run] obtain new where
    n: "selected s' = selected s @ new" "picks_head new" "new \<noteq> []" "hd new = (var, var # rest)"
    by auto
  then obtain new' where "new = (var, var # rest) # new'" by (cases new) auto
  with n have 1: "\<exists>new. selected s' = selected s @ (var, var # rest) # new \<and>
            (\<forall>(v, pool) \<in> set new. pool \<noteq> [] \<and> v = hd pool)"
    by (auto simp: picks_head_def)
  from run obtain fuel' us2 s2 where
    v: "GAC_vals fuel' csp var (curDomain (vars s var)) rest
       (s\<lparr>selected := selected s @ [(var, var # rest)]\<rparr>) = Some (Inr (us2, s2))"
    and e: "us' = us2 @ [var]" "s' = setValue var None s2"
    by (rule GAC_Cons_cases)
  from GAC_frame(2) [OF v] e have 2: "\<exists>rest'. us' = rest' @ [var] \<and> mset rest' = mset rest"
    by simp
  from e have 3: "v_value (vars s' var) = None" by (simp add: setValue_value)
  from 1 2 3 show ?thesis by blast
qed

text \<open>
The hypothesis of the amended C10 holds for three variables without a constraint.
\<close>

theorem selection_takes_head_witness:
  "\<exists>us' s' new rest'. GAC 5 csp_free [0, 1, 2] (initial_state heapABC) = Some (Inr (us', s')) \<and>
     selected s' = (0, [0, 1, 2]) # new \<and> us' = rest' @ [0] \<and> v_value (vars s' 0) = None"
proof -
  have "returns (GAC 5 csp_free [0, 1, 2] (initial_state heapABC))" by code_simp
  then obtain us' s' where run: "GAC 5 csp_free [0, 1, 2] (initial_state heapABC) = Some (Inr (us', s'))"
    by (auto dest: returnsD)
  from selection_takes_head [OF run] run show ?thesis by auto
qed

text \<open>
  C10 as it is stated fails on these three variables: after the first value of A the
  pool is C, B, so for the second value of A the search selects C while B, which comes
  before C in the list that was supplied, is unassigned.
\<close>

theorem selection_order_counterexample:
  "selected_of (GAC 5 csp_free [0, 1, 2] (initial_state heapABC)) =
     Some [(0, [0, 1, 2]), (1, [1, 2]), (2, [2]), (2, [2, 1]), (1, [1])] \<and>
   \<not> in_fixed_order [0, 1, 2] [(0, [0, 1, 2]), (1, [1, 2]), (2, [2]), (2, [2, 1]), (1, [1])]"
  by code_simp

end
